theory Spec2Isabelle
  imports Main "HOL-Library.Multiset"
begin

section \<open>Data model of internal/exec/exec.go\<close>

subsection \<open>Type descriptors, runtime values, contexts and errors\<close>

text \<open>
  \<open>common.Type\<close>: the closed set of type descriptors the serializer switches on.
  \<open>ListOf\<close> is \<open>common.List\<close>, \<open>NonNull\<close> is \<open>common.NonNull\<close>, the others are the
  \<open>schema\<close> types, each with its name.
\<close>

datatype Type =
    Object string
  | Interface string
  | Union string
  | ListOf Type
  | NonNull Type
  | Scalar string
  | Enum string

text \<open>
  \<open>reflect.Value\<close>, as far as exec.go looks at it. \<open>Invalid\<close> is the zero Value
  (\<open>IsValid()\<close> is false), \<open>NilPtr\<close> a nil pointer, \<open>Ptr v\<close> a pointer to \<open>v\<close>,
  \<open>NilSlice\<close> and \<open>Slice\<close> a slice, \<open>Str\<close> a string, and \<open>Other n\<close> any value of a kind
  that has neither \<open>IsNil\<close> nor \<open>Len\<close> (a number, a bool, a struct), told apart by \<open>n\<close>.
\<close>

datatype val =
    Invalid
  | NilPtr
  | Ptr val
  | NilSlice
  | Slice "val list"
  | Str string
  | Other nat

text \<open>A Go \<open>error\<close> value: its identity and the text of its \<open>Error()\<close> method.\<close>

datatype go_error = GoError (ident: nat) (Error: string)

text \<open>A \<open>context.Context\<close>: its identity and what \<open>Err()\<close> returns (\<open>None\<close> is nil).\<close>

datatype go_context = Context (ctx_id: nat) (Err: "go_error option")

text \<open>
  The values the code panics with, or that a call into a resolver or into \<open>reflect\<close>
  panics with. \<open>GotNilForNonNull t\<close> is \<open>errors.Errorf("got nil for non-null %q", t)\<close>,
  \<open>CouldNotMarshal v\<close> is \<open>errors.Errorf("could not marshal %v", v)\<close>.
\<close>

datatype panic_value =
    GotNilForNonNull Type
  | CouldNotMarshal val
  | Unreachable
  | ReflectPanic
  | ResolverPanic nat

text \<open>A path element is an alias or a list index (\<open>pathSegment.value\<close>).\<close>

datatype path_value = PathName string | PathIndex nat

datatype pathSegment = NoSegment | PathSegment pathSegment path_value

fun toSlice :: "pathSegment \<Rightarrow> path_value list" where
  "toSlice NoSegment = []"
| "toSlice (PathSegment parent v) = toSlice parent @ [v]"

text \<open>
  \<open>errors.QueryError\<close>, with the fields exec.go sets. \<open>errors.Errorf\<close> sets the message
  only.
\<close>

record QueryError =
  Message :: string
  Path :: "path_value list"
  OriginalError :: "go_error option"
  PanicValue :: "panic_value option"

definition Errorf :: "string \<Rightarrow> QueryError" where
  "Errorf msg = \<lparr>Message = msg, Path = [], OriginalError = None, PanicValue = None\<rparr>"

definition panicError :: "panic_value \<Rightarrow> QueryError" where
  "panicError v = (Errorf ''internal server error'')\<lparr>PanicValue := Some v\<rparr>"

subsection \<open>Selections\<close>

text \<open>
  \<open>resolvable.Field\<close> (with the \<open>Name\<close> and \<open>Type\<close> of its embedded \<open>schema.Field\<close>) and
  \<open>selected.SchemaField\<close>, which embeds it. \<open>HasArgsPacker\<close> is \<open>ArgsPacker != nil\<close>;
  \<open>Args\<close> is only handed to the tracer and is kept opaque. The nested selections
  \<open>Sels\<close> are the second argument of the constructor \<open>SchemaField\<close> below.
\<close>

record Field =
  Name :: string
  Type :: Type
  TypeName :: string
  MethodIndex :: nat
  HasContext :: bool
  HasError :: bool
  HasArgsPacker :: bool
  HasSelected :: bool
  TraceLabel :: string

record SchemaField =
  SF_Field :: Field
  Alias :: string
  Args :: nat
  PackedArgs :: val
  Async :: bool
  FixedResult :: val

text \<open>
  \<open>selected.Selection\<close>. A \<open>TypenameField\<close> carries the \<open>Name\<close> of its object, its alias
  and its \<open>TypeAssertions\<close>; that Go map is given as the list of its entries (name and
  \<open>MethodIndex\<close>) in the order in which this run's \<open>range\<close> visits them. A
  \<open>TypeAssertion\<close> carries its \<open>MethodIndex\<close> and its nested selections.
\<close>

datatype Selection =
    SchemaField SchemaField "Selection list"
  | TypenameField string string "(string \<times> nat) list"
  | TypeAssertion nat "Selection list"

text \<open>
  \<open>fieldToExec\<close>. Its \<open>out\<close> is the content of the buffer of its own that a goroutine
  gives the field; in the serial loop \<open>f.out\<close> is the buffer of the caller, which the
  executor below passes along as \<open>buf\<close>.
\<close>

record fieldToExec =
  field :: SchemaField
  sels :: "Selection list"
  resolver :: val
  out :: string

datatype SelectedField = SelectedField string "SelectedField list"

subsection \<open>Calls out of the package\<close>

text \<open>
  \<open>resolver.Method(i).Call(in)\<close> runs code of the schema's resolvers. A call either
  panics or returns; a field method returns its result and, when it has a second
  result, that error (\<open>None\<close> is nil); a narrowing method returns the narrowed
  resolver and a bool.
\<close>

datatype arg = ArgContext go_context | ArgPacked val | ArgSelected "SelectedField list"

datatype call_result = CallPanics panic_value | CallReturns val "go_error option"

datatype assert_result = AssertPanics panic_value | AssertReturns val bool

text \<open>
  What \<open>Execute\<close> reads of \<open>resolvable.Schema\<close> and of \<open>query.Operation\<close> (its \<open>Type\<close>,
  here \<open>OpType\<close>), and the error list \<open>Errs\<close> of the \<open>selected.Request\<close> that
  \<open>exec.Request\<close> embeds.
\<close>

record Schema =
  Resolver :: val

datatype OperationType = Query | Mutation | Subscription

record Operation =
  OpType :: OperationType

record Request =
  Errs :: "QueryError list"

text \<open>
  \<open>selected.ApplyOperation\<close> gets the request, so it can add errors to it before it
  returns the selections or panics: the list is what it added.
\<close>

datatype apply_result =
    ApplyPanics panic_value "QueryError list"
  | ApplyReturns "Selection list" "QueryError list"

text \<open>
  What exec.go takes from other packages, as parameters: the resolvers' methods
  (\<open>Call\<close> for fields, \<open>Assert\<close> for narrowing predicates),
  \<open>selected.ApplyOperation\<close>, \<open>selected.HasAsyncSel\<close>, the tracer's \<open>TraceField\<close> (the
  derived context it returns), \<open>resolvable.MetaFieldTypename\<close>, \<open>json.Marshal\<close> (\<open>None\<close>
  when it returns an error) and the text \<open>reflect.Value.String\<close> gives for a value that
  is not a string.
\<close>

record env =
  Call :: "val \<Rightarrow> nat \<Rightarrow> arg list \<Rightarrow> call_result"
  Assert :: "val \<Rightarrow> nat \<Rightarrow> assert_result"
  ApplyOperation :: "Schema \<Rightarrow> Operation \<Rightarrow> apply_result"
  HasAsyncSel :: "Selection list \<Rightarrow> bool"
  TraceField :: "go_context \<Rightarrow> string \<Rightarrow> string \<Rightarrow> string \<Rightarrow> bool \<Rightarrow> nat \<Rightarrow> go_context"
  MetaFieldTypename :: Field
  json_Marshal :: "val \<Rightarrow> string option"
  ValueString :: "val \<Rightarrow> string"

subsection \<open>The operations of \<open>reflect.Value\<close> that exec.go uses\<close>

text \<open>\<open>None\<close> is a panic inside \<open>reflect\<close>.\<close>

fun IsValid :: "val \<Rightarrow> bool" where
  "IsValid Invalid = False"
| "IsValid v = True"

fun KindIsPtr :: "val \<Rightarrow> bool" where
  "KindIsPtr NilPtr = True"
| "KindIsPtr (Ptr v) = True"
| "KindIsPtr v = False"

fun IsNil :: "val \<Rightarrow> bool option" where
  "IsNil NilPtr = Some True"
| "IsNil (Ptr v) = Some False"
| "IsNil NilSlice = Some True"
| "IsNil (Slice xs) = Some False"
| "IsNil v = None"

fun Elem :: "val \<Rightarrow> val option" where
  "Elem (Ptr v) = Some v"
| "Elem NilPtr = Some Invalid"
| "Elem v = None"

fun Len :: "val \<Rightarrow> nat option" where
  "Len NilSlice = Some 0"
| "Len (Slice xs) = Some (length xs)"
| "Len (Str s) = Some (length s)"
| "Len v = None"

fun Index :: "val \<Rightarrow> nat \<Rightarrow> val" where
  "Index (Slice xs) i = xs ! i"
| "Index (Str s) i = Other (of_char (s ! i))"
| "Index v i = Invalid"

fun Interface_of :: "val \<Rightarrow> val option" where
  "Interface_of Invalid = None"
| "Interface_of v = Some v"

fun String_of :: "env \<Rightarrow> val \<Rightarrow> string" where
  "String_of e (Str s) = s"
| "String_of e v = ValueString e v"

section \<open>The selection merger\<close>

fun unwrapNonNull :: "Type \<Rightarrow> Type \<times> bool" where
  "unwrapNonNull (NonNull t) = (t, True)"
| "unwrapNonNull t = (t, False)"

text \<open>
  \<open>typeOf\<close>: the object's own name when there are no type assertions, else the name of
  the first assertion, in the order of the iteration, whose method returns true, else
  the empty string. \<open>Inl\<close> is a panic of a method.
\<close>

fun typeOf_loop :: "env \<Rightarrow> (string \<times> nat) list \<Rightarrow> val \<Rightarrow> panic_value + string" where
  "typeOf_loop e [] rv = Inr ''''"
| "typeOf_loop e ((name, idx) # as) rv =
     (case Assert e rv idx of
        AssertPanics p \<Rightarrow> Inl p
      | AssertReturns v b \<Rightarrow> if b then Inr name else typeOf_loop e as rv)"

definition typeOf :: "env \<Rightarrow> string \<Rightarrow> (string \<times> nat) list \<Rightarrow> val \<Rightarrow> panic_value + string" where
  "typeOf e name as rv =
     (if length as = 0 then Inr name else typeOf_loop e as rv)"

text \<open>
  \<open>collectFieldsToResolve\<close>. The Go function appends to \<open>*fields\<close> and fills
  \<open>fieldByAlias\<close>, whose values point at entries of \<open>*fields\<close>; here the pair of the
  list and a map from alias to the entry's position is passed and returned, and the
  append to \<open>field.sels\<close> through the pointer is the update of that position.
\<close>

type_synonym collected = "fieldToExec list \<times> (string \<rightharpoonup> nat)"

fun collectFieldsToResolve ::
  "env \<Rightarrow> Selection list \<Rightarrow> val \<Rightarrow> collected \<Rightarrow> panic_value + collected" where
  "collectFieldsToResolve e [] rv (fs, fieldByAlias) = Inr (fs, fieldByAlias)"
| "collectFieldsToResolve e (SchemaField sel ss # rest) rv (fs, fieldByAlias) =
     (case fieldByAlias (Alias sel) of
        None \<Rightarrow>
          collectFieldsToResolve e rest rv
            (fs @ [\<lparr>field = sel, sels = ss, resolver = rv, out = []\<rparr>],
             fieldByAlias(Alias sel \<mapsto> length fs))
      | Some i \<Rightarrow>
          collectFieldsToResolve e rest rv
            (fs[i := (fs ! i)\<lparr>sels := sels (fs ! i) @ ss\<rparr>], fieldByAlias))"
| "collectFieldsToResolve e (TypenameField name alias as # rest) rv (fs, fieldByAlias) =
     (case typeOf e name as rv of
        Inl p \<Rightarrow> Inl p
      | Inr n \<Rightarrow>
          collectFieldsToResolve e rest rv
            (fs @ [\<lparr>field = \<lparr>SF_Field = MetaFieldTypename e, Alias = alias, Args = 0,
                                   PackedArgs = Invalid, Async = False, FixedResult = Str n\<rparr>,
                        sels = [], resolver = rv, out = []\<rparr>],
             fieldByAlias))"
| "collectFieldsToResolve e (TypeAssertion idx ss # rest) rv (fs, fieldByAlias) =
     (case Assert e rv idx of
        AssertPanics p \<Rightarrow> Inl p
      | AssertReturns v b \<Rightarrow>
          if \<not> b then collectFieldsToResolve e rest rv (fs, fieldByAlias)
          else (case collectFieldsToResolve e ss v (fs, fieldByAlias) of
                  Inl p \<Rightarrow> Inl p
                | Inr c \<Rightarrow> collectFieldsToResolve e rest rv c))"

section \<open>The executor\<close>

subsection \<open>Outcomes and panics\<close>

text \<open>
  Every function that writes returns the request's error list \<open>r.Errs\<close> and the bytes
  of the buffer it writes to, as they are when it returns or when a panic leaves it:
  \<open>Panic v\<close> is a panic with value \<open>v\<close> that is on its way up the stack.
\<close>

datatype status = Normal | Panic panic_value

type_synonym outcome = "status \<times> QueryError list \<times> string"

text \<open>
  \<open>handlePanic\<close>, deferred by every goroutine and by \<open>Execute\<close>: a panic ends there and
  is added to the errors (\<open>r.AddError(panicError(value))\<close>). The logger is not modelled.
\<close>

definition handlePanic :: "status \<Rightarrow> QueryError list \<Rightarrow> QueryError list" where
  "handlePanic st errs = (case st of Normal \<Rightarrow> errs | Panic v \<Rightarrow> errs @ [panicError v])"

subsection \<open>Sizes, for the termination of the executor\<close>

fun selSize :: "Selection \<Rightarrow> nat" where
  "selSize (SchemaField f ss) = Suc (sum_list (map selSize ss))"
| "selSize (TypenameField n a as) = 1"
| "selSize (TypeAssertion i ss) = Suc (sum_list (map selSize ss))"

definition selsSize :: "Selection list \<Rightarrow> nat" where
  "selsSize ss = sum_list (map selSize ss)"

fun typeSize :: "Type \<Rightarrow> nat" where
  "typeSize (ListOf t) = Suc (typeSize t)"
| "typeSize (NonNull t) = Suc (typeSize t)"
| "typeSize t = 1"

definition fieldsSize :: "fieldToExec list \<Rightarrow> nat" where
  "fieldsSize fs = sum_list (map (\<lambda>f. Suc (selsSize (sels f))) fs)"

lemma selsSize_simps [simp]:
  "selsSize [] = 0" "selsSize (s # ss) = selSize s + selsSize ss"
  "selsSize (xs @ ys) = selsSize xs + selsSize ys"
  by (simp_all add: selsSize_def)

lemma fieldsSize_simps [simp]:
  "fieldsSize [] = 0" "fieldsSize (f # fs) = Suc (selsSize (sels f)) + fieldsSize fs"
  "fieldsSize (fs @ gs) = fieldsSize fs + fieldsSize gs"
  by (simp_all add: fieldsSize_def)

lemma fieldsSize_update:
  "i < length fs \<Longrightarrow>
   fieldsSize (fs[i := (fs ! i)\<lparr>sels := sels (fs ! i) @ ss\<rparr>]) = fieldsSize fs + selsSize ss"
proof (induction fs arbitrary: i)
  case Nil
  then show ?case by simp
next
  case (Cons f fs)
  then show ?case by (cases i) simp_all
qed

lemma fieldsSize_update_le:
  "fieldsSize (fs[i := (fs ! i)\<lparr>sels := sels (fs ! i) @ ss\<rparr>]) \<le> fieldsSize fs + selsSize ss"
proof (cases "i < length fs")
  case True
  then show ?thesis by (simp add: fieldsSize_update)
next
  case False
  then show ?thesis by (simp add: list_update_beyond)
qed

lemma collect_size:
  "collectFieldsToResolve e ss rv c = Inr c' \<Longrightarrow>
   fieldsSize (fst c') \<le> fieldsSize (fst c) + selsSize ss"
proof (induction e ss rv c arbitrary: c' rule: collectFieldsToResolve.induct)
  case (1 e rv fs fieldByAlias)
  then show ?case by simp
next
  case (2 e sel ss rest rv fs fieldByAlias)
  show ?case
  proof (cases "fieldByAlias (Alias sel)")
    case None
    with 2 show ?thesis by (fastforce simp: selsSize_def)
  next
    case (Some i)
    with "2.prems" have run:
      "collectFieldsToResolve e rest rv
         (fs[i := (fs ! i)\<lparr>sels := sels (fs ! i) @ ss\<rparr>], fieldByAlias) = Inr c'"
      by simp
    have "fieldsSize (fst c') \<le>
      fieldsSize (fs[i := (fs ! i)\<lparr>sels := sels (fs ! i) @ ss\<rparr>]) + selsSize rest"
      using 2(2) [OF Some run] by simp
    with fieldsSize_update_le [of fs i ss]
    show ?thesis by (simp add: selsSize_def)
  qed
next
  case (3 e name al tas rest rv fs fieldByAlias)
  from "3.prems" obtain n where n: "typeOf e name tas rv = Inr n"
    by (cases "typeOf e name tas rv") simp_all
  with "3.prems" have "fieldsSize (fst c') \<le> fieldsSize fs + 1 + selsSize rest"
    using 3(1) [OF n] by simp
  then show ?case by simp
next
  case (4 e idx ss rest rv fs fieldByAlias)
  from "4.prems" obtain v b where a: "Assert e rv idx = AssertReturns v b"
    by (cases "Assert e rv idx") simp_all
  show ?case
  proof (cases b)
    case False
    with a "4.prems" 4(1) [OF a] show ?thesis by simp
  next
    case True
    with a "4.prems" obtain c1 where
      c1: "collectFieldsToResolve e ss v (fs, fieldByAlias) = Inr c1"
      and c2: "collectFieldsToResolve e rest rv c1 = Inr c'"
      by (cases "collectFieldsToResolve e ss v (fs, fieldByAlias)") simp_all
    have nb: "\<not> \<not> b" using True by simp
    from 4(2) [OF a nb c1] have "fieldsSize (fst c1) \<le> fieldsSize fs + selsSize ss"
      by simp
    moreover from 4(3) [OF a nb c1 c2]
    have "fieldsSize (fst c') \<le> fieldsSize (fst c1) + selsSize rest" .
    ultimately show ?thesis by (simp add: selsSize_def)
  qed
qed

lemma typeSize_pos: "0 < typeSize t"
  by (cases t) simp_all

lemma typeSize_unwrap: "unwrapNonNull typ = (t, nonNull) \<Longrightarrow> typeSize t \<le> typeSize typ"
  by (cases "typ") auto

lemma collect_size_start:
  "collectFieldsToResolve e ss rv ([], Map.empty) = Inr (fs, m) \<Longrightarrow> fieldsSize fs \<le> selsSize ss"
  using collect_size [of e ss rv "([], Map.empty)" "(fs, m)"] by simp

subsection \<open>One field\<close>

fun selectionToSelectedFields :: "Selection list \<Rightarrow> SelectedField list" where
  "selectionToSelectedFields [] = []"
| "selectionToSelectedFields (SchemaField selField ss # rest) =
     SelectedField (Name (SF_Field selField)) (selectionToSelectedFields ss)
       # selectionToSelectedFields rest"
| "selectionToSelectedFields (sel # rest) = selectionToSelectedFields rest"

text \<open>The slice \<open>in\<close> of the arguments of the resolver method, in the order of the code.\<close>

definition callArgs :: "go_context \<Rightarrow> fieldToExec \<Rightarrow> arg list" where
  "callArgs traceCtx f =
     (if HasContext (SF_Field (field f)) then [ArgContext traceCtx] else []) @
     (if HasArgsPacker (SF_Field (field f)) then [ArgPacked (PackedArgs (field f))] else []) @
     (if HasSelected (SF_Field (field f))
      then [ArgSelected (selectionToSelectedFields (sels f))] else [])"

text \<open>
  The closure of \<open>execFieldSelection\<close> that computes \<open>result\<close> and \<open>err\<close> under its own
  \<open>recover\<close>: \<open>Inl\<close> is the error, \<open>Inr\<close> the result. A panic of the resolver method is
  caught here and becomes an error with the path.
\<close>

definition resolveField ::
  "env \<Rightarrow> go_context \<Rightarrow> fieldToExec \<Rightarrow> pathSegment \<Rightarrow> QueryError + val" where
  "resolveField e traceCtx f path =
     (if IsValid (FixedResult (field f)) then Inr (FixedResult (field f))
      else case Err traceCtx of
        Some err \<Rightarrow> Inl (Errorf (Error err))
      | None \<Rightarrow>
          (case Call e (resolver f) (MethodIndex (SF_Field (field f))) (callArgs traceCtx f) of
             CallPanics panicValue \<Rightarrow> Inl ((panicError panicValue)\<lparr>Path := toSlice path\<rparr>)
           | CallReturns result callOut1 \<Rightarrow>
               (case callOut1 of
                  None \<Rightarrow> Inr result
                | Some resolverErr \<Rightarrow>
                    if HasError (SF_Field (field f))
                    then Inl ((Errorf (Error resolverErr))
                                \<lparr>Path := toSlice path, OriginalError := Some resolverErr\<rparr>)
                    else Inr result)))"

text \<open>The context that \<open>r.Tracer.TraceField\<close> returns for a field (\<open>traceCtx\<close>).\<close>

definition fieldTraceCtx :: "env \<Rightarrow> go_context \<Rightarrow> fieldToExec \<Rightarrow> go_context" where
  "fieldTraceCtx e ctx f =
     TraceField e ctx (TraceLabel (SF_Field (field f))) (TypeName (SF_Field (field f)))
       (Name (SF_Field (field f))) (\<not> Async (field f)) (Args (field f))"

subsection \<open>The mutually recursive walk\<close>

fun isObjectInterfaceUnion :: "Type \<Rightarrow> bool" where
  "isObjectInterfaceUnion (Object n) = True"
| "isObjectInterfaceUnion (Interface n) = True"
| "isObjectInterfaceUnion (Union n) = True"
| "isObjectInterfaceUnion t = False"

text \<open>The loop that copies the buffers \<open>entryouts\<close> of a concurrent list into \<open>out\<close>.\<close>

fun writeEntries :: "nat \<Rightarrow> string list \<Rightarrow> string \<Rightarrow> string" where
  "writeEntries i [] buf = buf"
| "writeEntries i (entryout # entryouts) buf =
     writeEntries (Suc i) entryouts ((if i > 0 then buf @ '','' else buf) @ entryout)"

text \<open>What the loop over the fields writes before a field: the comma and the key.\<close>

definition writeKey :: "nat \<Rightarrow> fieldToExec \<Rightarrow> string \<Rightarrow> string" where
  "writeKey i f buf =
     (if i > 0 then buf @ '','' else buf) @ ''\"'' @ Alias (field f) @ ''\"'' @ '':''"

text \<open>
  \<open>execSelections\<close>, \<open>execFieldSelection\<close> and \<open>execSelectionSet\<close>, with their loops as
  functions of their own: \<open>goFields\<close> and \<open>goList\<close> are the loops that start one goroutine
  per field or per list element, \<open>loopFields\<close> and \<open>loopList\<close> the loops that write.
  A goroutine gets an empty buffer of its own and ends in \<open>handlePanic\<close>; the goroutines
  are run one after the other in the order of the loop, which is one of the schedules
  the program has. As a goroutine writes to its own buffer only and resolver methods
  are functions of their receiver and arguments here, the bytes are those of every
  schedule; the order in which the goroutines' errors reach \<open>r.Errs\<close> is that of this
  schedule. The limiter and the trace's \<open>finish\<close> change neither the bytes nor the
  errors and are left out. The arguments \<open>errs\<close> and \<open>buf\<close> are \<open>r.Errs\<close> and the bytes
  of \<open>out\<close> before the call.
\<close>

function (sequential)
  execSelections ::
    "env \<Rightarrow> go_context \<Rightarrow> Selection list \<Rightarrow> pathSegment \<Rightarrow> val \<Rightarrow> bool
       \<Rightarrow> QueryError list \<Rightarrow> string \<Rightarrow> outcome"
  and goFields ::
    "env \<Rightarrow> go_context \<Rightarrow> pathSegment \<Rightarrow> fieldToExec list \<Rightarrow> QueryError list
       \<Rightarrow> QueryError list \<times> fieldToExec list"
  and loopFields ::
    "env \<Rightarrow> go_context \<Rightarrow> pathSegment \<Rightarrow> bool \<Rightarrow> nat \<Rightarrow> fieldToExec list
       \<Rightarrow> QueryError list \<Rightarrow> string \<Rightarrow> outcome"
  and execFieldSelection ::
    "env \<Rightarrow> go_context \<Rightarrow> fieldToExec \<Rightarrow> pathSegment \<Rightarrow> bool
       \<Rightarrow> QueryError list \<Rightarrow> string \<Rightarrow> outcome"
  and execSelectionSet ::
    "env \<Rightarrow> go_context \<Rightarrow> Selection list \<Rightarrow> Type \<Rightarrow> pathSegment \<Rightarrow> val
       \<Rightarrow> QueryError list \<Rightarrow> string \<Rightarrow> outcome"
  and goList ::
    "env \<Rightarrow> go_context \<Rightarrow> Selection list \<Rightarrow> Type \<Rightarrow> pathSegment \<Rightarrow> nat \<Rightarrow> val list
       \<Rightarrow> QueryError list \<Rightarrow> QueryError list \<times> string list"
  and loopList ::
    "env \<Rightarrow> go_context \<Rightarrow> Selection list \<Rightarrow> Type \<Rightarrow> pathSegment \<Rightarrow> nat \<Rightarrow> val list
       \<Rightarrow> QueryError list \<Rightarrow> string \<Rightarrow> outcome"
where
  "execSelections e ctx ss path rv serially errs buf =
     (let async = \<not> serially \<and> HasAsyncSel e ss in
      case collectFieldsToResolve e ss rv ([], Map.empty) of
        Inl p \<Rightarrow> (Panic p, errs, buf)
      | Inr (fs, fieldByAlias) \<Rightarrow>
          (case (if async then goFields e ctx path fs errs else (errs, fs)) of
             (errs1, fs1) \<Rightarrow>
               (case loopFields e ctx path async 0 fs1 errs1 (buf @ ''{'') of
                  (Normal, errs2, buf2) \<Rightarrow> (Normal, errs2, buf2 @ ''}'')
                | (Panic p, errs2, buf2) \<Rightarrow> (Panic p, errs2, buf2))))"
| "goFields e ctx path [] errs = (errs, [])"
| "goFields e ctx path (f # fs) errs =
     (case execFieldSelection e ctx f (PathSegment path (PathName (Alias (field f)))) True errs []
      of (st, errs1, f_out) \<Rightarrow>
        (case goFields e ctx path fs (handlePanic st errs1) of
           (errs2, fs1) \<Rightarrow> (errs2, f\<lparr>out := f_out\<rparr> # fs1)))"
| "loopFields e ctx path async i [] errs buf = (Normal, errs, buf)"
| "loopFields e ctx path async i (f # fs) errs buf =
     (if async
      then loopFields e ctx path async (Suc i) fs errs (writeKey i f buf @ out f)
      else (case execFieldSelection e ctx f (PathSegment path (PathName (Alias (field f))))
                   False errs (writeKey i f buf) of
              (Normal, errs1, buf1) \<Rightarrow> loopFields e ctx path async (Suc i) fs errs1 buf1
            | (Panic p, errs1, buf1) \<Rightarrow> (Panic p, errs1, buf1)))"
| "execFieldSelection e ctx f path applyLimiter errs buf =
     (let traceCtx = fieldTraceCtx e ctx f in
      case resolveField e traceCtx f path of
        Inl err \<Rightarrow> (Normal, errs @ [err], buf @ ''null'')
      | Inr result \<Rightarrow>
          execSelectionSet e traceCtx (sels f) (Type (SF_Field (field f))) path result errs buf)"
| "execSelectionSet e ctx ss typ path rv errs buf =
     (case unwrapNonNull typ of (t, nonNull) \<Rightarrow>
        if isObjectInterfaceUnion t then
          (if KindIsPtr rv \<and> IsNil rv = Some True
           then (if nonNull then (Panic (GotNilForNonNull t), errs, buf)
                 else (Normal, errs, buf @ ''null''))
           else execSelections e ctx ss path rv False errs buf)
        else if \<not> nonNull \<and> IsNil rv = None then (Panic ReflectPanic, errs, buf)
        else if \<not> nonNull \<and> IsNil rv = Some True then (Normal, errs, buf @ ''null'')
        else
          (case (if nonNull then Some rv else Elem rv) of
             None \<Rightarrow> (Panic ReflectPanic, errs, buf)
           | Some rv1 \<Rightarrow>
               (case t of
                  ListOf ofType \<Rightarrow>
                    (case Len rv1 of
                       None \<Rightarrow> (Panic ReflectPanic, errs, buf)
                     | Some l \<Rightarrow>
                         if HasAsyncSel e ss then
                           (case goList e ctx ss ofType path 0 (map (Index rv1) [0..<l]) errs of
                              (errs1, entryouts) \<Rightarrow>
                                (Normal, errs1, writeEntries 0 entryouts (buf @ ''['') @ '']''))
                         else
                           (case loopList e ctx ss ofType path 0 (map (Index rv1) [0..<l])
                                   errs (buf @ ''['') of
                              (Normal, errs1, buf1) \<Rightarrow> (Normal, errs1, buf1 @ '']'')
                            | (Panic p, errs1, buf1) \<Rightarrow> (Panic p, errs1, buf1)))
                | Scalar n \<Rightarrow>
                    (case Interface_of rv1 of
                       None \<Rightarrow> (Panic ReflectPanic, errs, buf)
                     | Some v \<Rightarrow>
                         (case json_Marshal e v of
                            None \<Rightarrow> (Panic (CouldNotMarshal v), errs, buf)
                          | Some data \<Rightarrow> (Normal, errs, buf @ data)))
                | Enum n \<Rightarrow> (Normal, errs, buf @ ''\"'' @ String_of e rv1 @ ''\"'')
                | _ \<Rightarrow> (Panic Unreachable, errs, buf))))"
| "goList e ctx ss ofType path i [] errs = (errs, [])"
| "goList e ctx ss ofType path i (v # vs) errs =
     (case execSelectionSet e ctx ss ofType (PathSegment path (PathIndex i)) v errs [] of
        (st, errs1, entryout) \<Rightarrow>
          (case goList e ctx ss ofType path (Suc i) vs (handlePanic st errs1) of
             (errs2, entryouts) \<Rightarrow> (errs2, entryout # entryouts)))"
| "loopList e ctx ss ofType path i [] errs buf = (Normal, errs, buf)"
| "loopList e ctx ss ofType path i (v # vs) errs buf =
     (case execSelectionSet e ctx ss ofType (PathSegment path (PathIndex i)) v errs
             (if i > 0 then buf @ '','' else buf) of
        (Normal, errs1, buf1) \<Rightarrow> loopList e ctx ss ofType path (Suc i) vs errs1 buf1
      | (Panic p, errs1, buf1) \<Rightarrow> (Panic p, errs1, buf1))"
  by pat_completeness auto

termination
  apply (relation "inv_image (less_than <*lex*> less_than <*lex*> less_than <*lex*> less_than)
     (case_sum
        (case_sum (\<lambda>(e, ctx, ss, path, rv, serially, errs, buf). (2 * selsSize ss + 1, 0, 0, 0))
           (case_sum (\<lambda>(e, ctx, path, fs, errs). (2 * fieldsSize fs, 1, 0, 0))
                     (\<lambda>(e, ctx, path, async, i, fs, errs, buf).
                        if async then (0, 0, 0, length fs) else (2 * fieldsSize fs, 1, 0, 0))))
        (case_sum
           (case_sum (\<lambda>(e, ctx, f, path, applyLimiter, errs, buf).
                        (2 * selsSize (sels f) + 2, 0, 0, 0))
                     (\<lambda>(e, ctx, ss, typ, path, rv, errs, buf).
                        (2 * selsSize ss + 1, typeSize typ, 1, 0)))
           (case_sum (\<lambda>(e, ctx, ss, ofType, path, i, vs, errs).
                        (2 * selsSize ss + 1, typeSize ofType, 2, length vs))
                     (\<lambda>(e, ctx, ss, ofType, path, i, vs, errs, buf).
                        (2 * selsSize ss + 1, typeSize ofType, 2, length vs)))))")
  subgoal by (intro wf_inv_image wf_lex_prod wf_less_than)
  subgoal for e ctx ss path rv serially errs buf x b xa y
    using collect_size_start [of e ss rv xa y] by auto
  subgoal for e ctx ss path rv serially errs buf x b xa y xb ya
    using collect_size_start [of e ss rv xa y] by (auto split: if_splits)
  subgoal by auto
  subgoal by auto
  subgoal by auto
  subgoal by auto
  subgoal by auto
  subgoal by auto
  subgoal using typeSize_pos by simp
  subgoal for e ctx ss ty path rv errs buf x y x2 x4 x2a
    using typeSize_unwrap [of ty x y] by auto
  subgoal for e ctx ss ty path rv errs buf x y x2 x4 x2a
    using typeSize_unwrap [of ty x y] by auto
  subgoal by auto
  subgoal by auto
  subgoal by auto
  subgoal by auto
  done

declare execSelections.simps [simp del] execFieldSelection.simps [simp del]
  execSelectionSet.simps [simp del]

subsection \<open>The request executor\<close>

text \<open>
  The closure of \<open>Execute\<close> that walks the tree; its deferred \<open>handlePanic\<close> is applied in
  \<open>Execute\<close> below. A nil byte slice is the empty string.
\<close>

definition Execute_walk ::
  "env \<Rightarrow> Request \<Rightarrow> go_context \<Rightarrow> Schema \<Rightarrow> Operation \<Rightarrow> outcome" where
  "Execute_walk e r ctx s op =
     (case ApplyOperation e s op of
        ApplyPanics p added \<Rightarrow> (Panic p, Errs r @ added, [])
      | ApplyReturns ss added \<Rightarrow>
          execSelections e ctx ss NoSegment (Resolver s) (OpType op = Mutation)
            (Errs r @ added) [])"

definition Execute ::
  "env \<Rightarrow> Request \<Rightarrow> go_context \<Rightarrow> Schema \<Rightarrow> Operation \<Rightarrow> string \<times> QueryError list" where
  "Execute e r ctx s op =
     (case Execute_walk e r ctx s op of
        (st, errs, buf) \<Rightarrow>
          (case Err ctx of
             Some err \<Rightarrow> ([], [(Errorf (Error err))\<lparr>OriginalError := Some err\<rparr>])
           | None \<Rightarrow> (buf, handlePanic st errs)))"

section \<open>The merge, as the specification words it\<close>

text \<open>
  The selections a merge visits, in the order of the traversal, each with the resolver
  it is visited with: a field selection, or a typename selection with the name that
  \<open>typeOf\<close> computed for it. A type assertion whose predicate fails contributes
  nothing; one whose predicate succeeds contributes its nested selections, visited
  with the narrowed resolver. \<open>Inl\<close> is the first panic of the traversal.
\<close>

datatype leaf = FieldLeaf SchemaField "Selection list" val | TypenameLeaf string string val

fun leaves :: "env \<Rightarrow> Selection list \<Rightarrow> val \<Rightarrow> panic_value + leaf list" where
  "leaves e [] rv = Inr []"
| "leaves e (SchemaField sel ss # rest) rv =
     (case leaves e rest rv of
        Inl p \<Rightarrow> Inl p
      | Inr ls \<Rightarrow> Inr (FieldLeaf sel ss rv # ls))"
| "leaves e (TypenameField name al tas # rest) rv =
     (case typeOf e name tas rv of
        Inl p \<Rightarrow> Inl p
      | Inr n \<Rightarrow>
          (case leaves e rest rv of
             Inl p \<Rightarrow> Inl p
           | Inr ls \<Rightarrow> Inr (TypenameLeaf al n rv # ls)))"
| "leaves e (TypeAssertion idx ss # rest) rv =
     (case Assert e rv idx of
        AssertPanics p \<Rightarrow> Inl p
      | AssertReturns v b \<Rightarrow>
          if \<not> b then leaves e rest rv
          else (case leaves e ss v of
                  Inl p \<Rightarrow> Inl p
                | Inr ls1 \<Rightarrow>
                    (case leaves e rest rv of
                       Inl p \<Rightarrow> Inl p
                     | Inr ls2 \<Rightarrow> Inr (ls1 @ ls2))))"

text \<open>
  Modelled on the words of the specification: the output has the fields in first-seen
  order; the first field selection of an alias creates the entry, with its metadata
  and resolver; every later field selection of that alias creates nothing and adds its
  nested selections to the entry of the first, in the order of the occurrences. A
  typename selection always creates an entry of its own.
\<close>

fun sameAlias :: "string \<Rightarrow> leaf \<Rightarrow> bool" where
  "sameAlias a (FieldLeaf sel ss rv) = (Alias sel = a)"
| "sameAlias a (TypenameLeaf al n rv) = False"

fun leafSels :: "leaf \<Rightarrow> Selection list" where
  "leafSels (FieldLeaf sel ss rv) = ss"
| "leafSels (TypenameLeaf al n rv) = []"

definition typenameEntry :: "env \<Rightarrow> string \<Rightarrow> string \<Rightarrow> val \<Rightarrow> fieldToExec" where
  "typenameEntry e al n rv =
     \<lparr>field = \<lparr>SF_Field = MetaFieldTypename e, Alias = al, Args = 0, PackedArgs = Invalid,
                Async = False, FixedResult = Str n\<rparr>,
      sels = [], resolver = rv, out = []\<rparr>"

fun mergeSpec :: "env \<Rightarrow> leaf list \<Rightarrow> fieldToExec list" where
  "mergeSpec e [] = []"
| "mergeSpec e (TypenameLeaf al n rv # ls) = typenameEntry e al n rv # mergeSpec e ls"
| "mergeSpec e (FieldLeaf sel ss rv # ls) =
     \<lparr>field = sel,
      sels = ss @ concat (map leafSels (filter (sameAlias (Alias sel)) ls)),
      resolver = rv, out = []\<rparr>
     # mergeSpec e (filter (\<lambda>l. \<not> sameAlias (Alias sel) l) ls)"

text \<open>
  For the proof: where the entry of an alias is in the merged output, and one step of
  \<open>collectFieldsToResolve\<close> on a visited selection.
\<close>

fun aliasIndex :: "leaf list \<Rightarrow> string \<Rightarrow> nat option" where
  "aliasIndex [] a = None"
| "aliasIndex (TypenameLeaf al n rv # ls) a = map_option Suc (aliasIndex ls a)"
| "aliasIndex (FieldLeaf sel ss rv # ls) a =
     (if Alias sel = a then Some 0
      else map_option Suc (aliasIndex (filter (\<lambda>l. \<not> sameAlias (Alias sel) l) ls) a))"

fun addLeaf :: "env \<Rightarrow> collected \<Rightarrow> leaf \<Rightarrow> collected" where
  "addLeaf e (fs, m) (FieldLeaf sel ss rv) =
     (case m (Alias sel) of
        None \<Rightarrow> (fs @ [\<lparr>field = sel, sels = ss, resolver = rv, out = []\<rparr>],
                 m(Alias sel \<mapsto> length fs))
      | Some i \<Rightarrow> (fs[i := (fs ! i)\<lparr>sels := sels (fs ! i) @ ss\<rparr>], m))"
| "addLeaf e (fs, m) (TypenameLeaf al n rv) = (fs @ [typenameEntry e al n rv], m)"

section \<open>Notions for the properties\<close>

subsection \<open>Appending\<close>

text \<open>
  A run \<open>appends\<close> when what it returns from any error list and buffer is what it
  returns from empty ones, put after them: it reads neither and removes nothing.
\<close>

definition frame :: "QueryError list \<Rightarrow> string \<Rightarrow> outcome \<Rightarrow> outcome" where
  "frame errs buf r = (case r of (st, errs1, buf1) \<Rightarrow> (st, errs @ errs1, buf @ buf1))"

definition frameGo :: "QueryError list \<Rightarrow> QueryError list \<times> 'a \<Rightarrow> QueryError list \<times> 'a" where
  "frameGo errs r = (case r of (errs1, x) \<Rightarrow> (errs @ errs1, x))"

definition appends :: "(QueryError list \<Rightarrow> string \<Rightarrow> outcome) \<Rightarrow> bool" where
  "appends run \<longleftrightarrow> (\<forall>errs buf. run errs buf = frame errs buf (run [] []))"

definition appendsGo :: "(QueryError list \<Rightarrow> QueryError list \<times> 'a) \<Rightarrow> bool" where
  "appendsGo run \<longleftrightarrow> (\<forall>errs. run errs = frameGo errs (run []))"

subsection \<open>What one field and one list element write\<close>

text \<open>
  \<open>commaJoin\<close> puts a comma between the entries; \<open>joined i\<close> is what a loop that is at
  index \<open>i\<close> writes for them. \<open>objectEntry\<close> is the key of a field followed by its bytes.
\<close>

fun commaJoin :: "string list \<Rightarrow> string" where
  "commaJoin [] = []"
| "commaJoin [x] = x"
| "commaJoin (x # y # ys) = x @ '','' @ commaJoin (y # ys)"

fun joined :: "nat \<Rightarrow> string list \<Rightarrow> string" where
  "joined i [] = []"
| "joined i (x # xs) = (if i > 0 then '','' else []) @ x @ joined (Suc i) xs"

text \<open>
  \<open>runField\<close> is a field of the selection set at \<open>path\<close> executed from an empty error
  list into an empty buffer: its status, the errors it adds and the bytes it writes.
  \<open>runElem\<close> is the same for the element \<open>v\<close> at index \<open>k\<close> of a list.
\<close>

definition objectEntry :: "fieldToExec \<Rightarrow> string \<Rightarrow> string" where
  "objectEntry f bytes = ''\"'' @ Alias (field f) @ ''\":'' @ bytes"

definition runField :: "env \<Rightarrow> go_context \<Rightarrow> pathSegment \<Rightarrow> fieldToExec \<Rightarrow> outcome" where
  "runField e ctx path f =
     execFieldSelection e ctx f (PathSegment path (PathName (Alias (field f)))) False [] []"

definition fieldStatus :: "env \<Rightarrow> go_context \<Rightarrow> pathSegment \<Rightarrow> fieldToExec \<Rightarrow> status" where
  "fieldStatus e ctx path f = fst (runField e ctx path f)"

definition fieldErrs :: "env \<Rightarrow> go_context \<Rightarrow> pathSegment \<Rightarrow> fieldToExec \<Rightarrow> QueryError list" where
  "fieldErrs e ctx path f = fst (snd (runField e ctx path f))"

definition fieldBytes :: "env \<Rightarrow> go_context \<Rightarrow> pathSegment \<Rightarrow> fieldToExec \<Rightarrow> string" where
  "fieldBytes e ctx path f = snd (snd (runField e ctx path f))"

definition entries :: "env \<Rightarrow> go_context \<Rightarrow> pathSegment \<Rightarrow> fieldToExec list \<Rightarrow> string list" where
  "entries e ctx path fs = map (\<lambda>f. objectEntry f (fieldBytes e ctx path f)) fs"

definition runElem ::
  "env \<Rightarrow> go_context \<Rightarrow> Selection list \<Rightarrow> Type \<Rightarrow> pathSegment \<Rightarrow> nat \<times> val \<Rightarrow> outcome" where
  "runElem e ctx ss ofType path kv =
     execSelectionSet e ctx ss ofType (PathSegment path (PathIndex (fst kv))) (snd kv) [] []"

definition elemStatus ::
  "env \<Rightarrow> go_context \<Rightarrow> Selection list \<Rightarrow> Type \<Rightarrow> pathSegment \<Rightarrow> nat \<times> val \<Rightarrow> status" where
  "elemStatus e ctx ss ofType path kv = fst (runElem e ctx ss ofType path kv)"

definition elemErrs ::
  "env \<Rightarrow> go_context \<Rightarrow> Selection list \<Rightarrow> Type \<Rightarrow> pathSegment \<Rightarrow> nat \<times> val \<Rightarrow> QueryError list" where
  "elemErrs e ctx ss ofType path kv = fst (snd (runElem e ctx ss ofType path kv))"

definition elemBytes ::
  "env \<Rightarrow> go_context \<Rightarrow> Selection list \<Rightarrow> Type \<Rightarrow> pathSegment \<Rightarrow> nat \<times> val \<Rightarrow> string" where
  "elemBytes e ctx ss ofType path kv = snd (snd (runElem e ctx ss ofType path kv))"

text \<open>
  The element type and the elements of a list-typed value, as \<open>execSelectionSet\<close> gets
  them: of a non-null list the value itself, of a nullable list what its pointer
  points to.
\<close>

fun listElems :: "Type \<Rightarrow> val \<Rightarrow> (Type \<times> val list) option" where
  "listElems (NonNull (ListOf ofType)) rv =
     (case Len rv of None \<Rightarrow> None | Some l \<Rightarrow> Some (ofType, map (Index rv) [0..<l]))"
| "listElems (ListOf ofType) (Ptr rv1) =
     (case Len rv1 of None \<Rightarrow> None | Some l \<Rightarrow> Some (ofType, map (Index rv1) [0..<l]))"
| "listElems t rv = None"

subsection \<open>Strictly sequential execution\<close>

text \<open>
  The executor with no concurrency at all: the same resolvers, tracer and encoder, and
  a \<open>HasAsyncSel\<close> that never holds, so that every selection set and every list is
  executed by the serial loops. An outcome \<open>b\<close> \<open>agrees\<close> with the sequential outcome
  \<open>a\<close> when it is the same wherever \<open>a\<close> is not a panic.
\<close>

definition sequential :: "env \<Rightarrow> env" where
  "sequential e = e\<lparr>HasAsyncSel := (\<lambda>ss. False)\<rparr>"

definition agrees :: "outcome \<Rightarrow> outcome \<Rightarrow> bool" where
  "agrees a b \<longleftrightarrow> (fst a = Normal \<longrightarrow> b = a)"

section \<open>A concrete schema\<close>

text \<open>
  A small resolver set on which the executor is evaluated: method 0 returns the number
  5, method 1 returns an error, method 2 returns a nil pointer, method 3 a pointer to
  a number, method 4 a value that \<open>json.Marshal\<close> cannot encode (the value 13 stands
  for it), method 5 a nil slice, any other method panics; narrowing method 1 succeeds
  and the others do not. \<open>demoMarshal\<close> encodes a nil pointer and a nil slice as
  \<open>null\<close>, as \<open>json.Marshal\<close> does.
  \<open>hero\<close> is a field of a non-null object type whose resolver returns a nil pointer.
  \<open>demoHasAsyncSel\<close> looks for a field marked \<open>Async\<close>, through type assertions.
\<close>

fun demoHasAsyncSel :: "Selection list \<Rightarrow> bool" where
  "demoHasAsyncSel [] = False"
| "demoHasAsyncSel (SchemaField sel ss # rest) = (Async sel \<or> demoHasAsyncSel rest)"
| "demoHasAsyncSel (TypenameField name al tas # rest) = demoHasAsyncSel rest"
| "demoHasAsyncSel (TypeAssertion idx ss # rest) = (demoHasAsyncSel ss \<or> demoHasAsyncSel rest)"

fun demoMarshal :: "val \<Rightarrow> string option" where
  "demoMarshal NilPtr = Some ''null''"
| "demoMarshal NilSlice = Some ''null''"
| "demoMarshal (Str s) = Some (''\"'' @ s @ ''\"'')"
| "demoMarshal (Other n) = (if n = 13 then None else Some (if n = 5 then ''5'' else ''0''))"
| "demoMarshal v = None"

definition demoCall :: "val \<Rightarrow> nat \<Rightarrow> arg list \<Rightarrow> call_result" where
  "demoCall rv idx args =
     (if idx = 0 then CallReturns (Other 5) None
      else if idx = 1 then CallReturns NilPtr (Some (GoError 1 ''boom''))
      else if idx = 2 then CallReturns NilPtr None
      else if idx = 3 then CallReturns (Ptr (Other 7)) None
      else if idx = 4 then CallReturns (Other 13) None
      else if idx = 5 then CallReturns NilSlice None
      else CallPanics (ResolverPanic 0))"

definition demoTypename :: Field where
  "demoTypename =
     \<lparr>Name = ''__typename'', Type = NonNull (Scalar ''String''), TypeName = '''',
      MethodIndex = 0, HasContext = False, HasError = False, HasArgsPacker = False,
      HasSelected = False, TraceLabel = ''GraphQL field: __typename''\<rparr>"

definition demoEnv :: "Selection list \<Rightarrow> env" where
  "demoEnv root =
     \<lparr>Call = demoCall,
      Assert = (\<lambda>rv idx. AssertReturns rv (idx = 1)),
      ApplyOperation = (\<lambda>s op. ApplyReturns root []),
      HasAsyncSel = demoHasAsyncSel,
      TraceField = (\<lambda>ctx label typeName name sync args. ctx),
      MetaFieldTypename = demoTypename,
      json_Marshal = demoMarshal,
      ValueString = (\<lambda>v. ''<Value>'')\<rparr>"

definition demoField :: "string \<Rightarrow> Type \<Rightarrow> nat \<Rightarrow> bool \<Rightarrow> bool \<Rightarrow> SchemaField" where
  "demoField name t idx hasError async =
     \<lparr>SF_Field = \<lparr>Name = name, Type = t, TypeName = ''Query'', MethodIndex = idx,
                   HasContext = False, HasError = hasError, HasArgsPacker = False,
                   HasSelected = False, TraceLabel = ''GraphQL field: Query.'' @ name\<rparr>,
      Alias = name, Args = 0, PackedArgs = Invalid, Async = async, FixedResult = Invalid\<rparr>"

definition demoA :: Selection where
  "demoA = SchemaField (demoField ''a'' (NonNull (Scalar ''Int'')) 0 False False) []"

definition demoB :: Selection where
  "demoB = SchemaField (demoField ''b'' (Scalar ''String'') 1 True False) []"

definition background :: go_context where
  "background = Context 0 None"




definition demoHero :: "bool \<Rightarrow> Selection" where
  "demoHero async =
     SchemaField (demoField ''hero'' (NonNull (Object ''Human'')) 2 False async) [demoA]"

definition demoAsyncA :: Selection where
  "demoAsyncA = SchemaField (demoField ''a'' (NonNull (Scalar ''Int'')) 0 False True) []"

definition demoX :: "Selection list \<Rightarrow> Selection" where
  "demoX ss = SchemaField (demoField ''x'' (Object ''Human'') 3 False False) ss"

lemmas demo_defs = demoEnv_def demoCall_def demoField_def demoA_def demoB_def background_def
  demoTypename_def fieldTraceCtx_def callArgs_def resolveField_def writeKey_def Errorf_def
  panicError_def handlePanic_def Execute_def Execute_walk_def
  execSelections.simps execFieldSelection.simps execSelectionSet.simps

lemmas run_defs = fieldStatus_def fieldErrs_def fieldBytes_def runField_def entries_def
  objectEntry_def elemStatus_def elemErrs_def elemBytes_def runElem_def
  demoHero_def demoAsyncA_def

section \<open>Properties\<close>

subsection \<open>The walk only appends\<close>

lemma frame_simp [simp]: "frame errs buf (st, errs1, buf1) = (st, errs @ errs1, buf @ buf1)"
  by (simp add: frame_def)

lemma frameGo_simp [simp]: "frameGo errs (errs1, x) = (errs @ errs1, x)"
  by (simp add: frameGo_def)

lemma appends_at:
  "appends run \<Longrightarrow> run [] [] = (st, errs1, buf1) \<Longrightarrow> run errs buf = (st, errs @ errs1, buf @ buf1)"
  by (simp add: appends_def)

lemma appendsGo_at:
  "appendsGo run \<Longrightarrow> run [] = (errs1, x) \<Longrightarrow> run errs = (errs @ errs1, x)"
  by (simp add: appendsGo_def)

lemma appendsI:
  "(\<And>errs buf st errs1 buf1. run [] [] = (st, errs1, buf1) \<Longrightarrow>
      run errs buf = (st, errs @ errs1, buf @ buf1)) \<Longrightarrow> appends run"
  unfolding appends_def
proof (intro allI)
  fix errs buf
  assume h: "\<And>errs buf st errs1 buf1. run [] [] = (st, errs1, buf1) \<Longrightarrow>
      run errs buf = (st, errs @ errs1, buf @ buf1)"
  obtain st errs1 buf1 where r: "run [] [] = (st, errs1, buf1)"
    by (cases "run [] []") auto
  show "run errs buf = frame errs buf (run [] [])"
    using h [OF r] r by simp
qed

lemma appendsGoI:
  "(\<And>errs errs1 x. run [] = (errs1, x) \<Longrightarrow> run errs = (errs @ errs1, x)) \<Longrightarrow> appendsGo run"
  unfolding appendsGo_def
proof (intro allI)
  fix errs
  assume h: "\<And>errs errs1 x. run [] = (errs1, x) \<Longrightarrow> run errs = (errs @ errs1, x)"
  obtain errs1 x where r: "run [] = (errs1, x)"
    by (cases "run []") auto
  show "run errs = frameGo errs (run [])"
    using h [OF r] r by simp
qed

lemma handlePanic_append: "handlePanic st (errs @ errs1) = errs @ handlePanic st errs1"
  by (cases st) (simp_all add: handlePanic_def)

lemma writeKey_append: "writeKey i f buf = buf @ writeKey i f []"
  by (simp add: writeKey_def)

lemma exec_appends:
  fixes errs0 :: "QueryError list" and buf0 :: string
  shows "appends (execSelections e ctx ss path rv serially)"
    and "appendsGo (goFields e ctx path fs)"
    and "appends (loopFields e ctx path async i fs)"
    and "appends (execFieldSelection e ctx f path applyLimiter)"
    and "appends (execSelectionSet e ctx ss ty path rv)"
    and "appendsGo (goList e ctx ss ofType path i vs)"
    and "appends (loopList e ctx ss ofType path i vs)"
proof (induct e ctx ss path rv serially errs0 buf0
    and e ctx path fs errs0
    and e ctx path async i fs errs0 buf0
    and e ctx f path applyLimiter errs0 buf0
    and e ctx ss ty path rv errs0 buf0
    and e ctx ss ofType path i vs errs0
    and e ctx ss ofType path i vs errs0 buf0
    rule: execSelections_goFields_loopFields_execFieldSelection_execSelectionSet_goList_loopList.induct)
  case (1 e ctx ss path rv serially errs0 buf0)
  note IH2 = 1(1) and IH3 = 1(2)
  show ?case
  proof (rule appendsI)
    fix errs buf st errs1 buf1
    assume r: "execSelections e ctx ss path rv serially [] [] = (st, errs1, buf1)"
    show "execSelections e ctx ss path rv serially errs buf = (st, errs @ errs1, buf @ buf1)"
    proof (cases "collectFieldsToResolve e ss rv ([], Map.empty)")
      case (Inl p)
      with r show ?thesis by (simp add: execSelections.simps)
    next
      case (Inr c)
      obtain fs m where "c = (fs, m)" by (cases c)
      with Inr have col: "collectFieldsToResolve e ss rv ([], Map.empty) = Inr (fs, m)"
        by simp
      show ?thesis
      proof (cases "\<not> serially \<and> HasAsyncSel e ss")
        case True
        have g: "appendsGo (goFields e ctx path fs)"
          using IH2 [of True "(fs, m)" fs m] col True by simp
        obtain E1 fs1 where g0: "goFields e ctx path fs [] = (E1, fs1)"
          by (cases "goFields e ctx path fs []")
        have l: "appends (loopFields e ctx path True 0 fs1)"
          using IH3 [of True "(fs, m)" fs m "errs0 @ E1" fs1] col True
            appendsGo_at [OF g g0, of errs0]
          by simp
        obtain st2 E2 B2 where l0: "loopFields e ctx path True 0 fs1 [] [] = (st2, E2, B2)"
          by (cases "loopFields e ctx path True 0 fs1 [] []")
        show ?thesis
          using r col True appendsGo_at [OF g g0] appends_at [OF l l0]
          by (cases st2) (auto simp add: execSelections.simps)
      next
        case False
        have l: "appends (loopFields e ctx path False 0 fs)"
          using IH3 [of False "(fs, m)" fs m errs0 fs] col False by simp
        obtain st2 E2 B2 where l0: "loopFields e ctx path False 0 fs [] [] = (st2, E2, B2)"
          by (cases "loopFields e ctx path False 0 fs [] []")
        show ?thesis
          using r col False appends_at [OF l l0]
          by (cases st2) (auto simp add: execSelections.simps)
      qed
    qed
  qed
next
  case (2 e ctx path errs0)
  show ?case by (simp add: appendsGo_def)
next
  case (3 e ctx path f fs errs0)
  note IH4 = 3(1) and IH2 = 3(2)
  let ?p = "PathSegment path (PathName (Alias (field f)))"
  obtain st1 E1 B1 where f0: "execFieldSelection e ctx f ?p True [] [] = (st1, E1, B1)"
    by (cases "execFieldSelection e ctx f ?p True [] []")
  have g: "appendsGo (goFields e ctx path fs)"
    using IH2 [of st1 "(errs0 @ E1, B1)" "errs0 @ E1" B1] appends_at [OF IH4 f0, of errs0 "[]"]
    by simp
  show ?case
  proof (rule appendsGoI)
    fix errs errs1 x
    assume r: "goFields e ctx path (f # fs) [] = (errs1, x)"
    obtain E2 fs1 where g0: "goFields e ctx path fs [] = (E2, fs1)"
      by (cases "goFields e ctx path fs []")
    show "goFields e ctx path (f # fs) errs = (errs @ errs1, x)"
      using r f0 appends_at [OF IH4 f0, of errs "[]"] appendsGo_at [OF g g0]
      by (auto simp add: handlePanic_append)
  qed
next
  case (4 e ctx path async i errs0 buf0)
  show ?case by (simp add: appends_def)
next
  case (5 e ctx path async i f fs errs0 buf0)
  note IHa = 5(1) and IH4 = 5(2) and IH3 = 5(3)
  let ?p = "PathSegment path (PathName (Alias (field f)))"
  show ?case
  proof (cases async)
    case True
    obtain st2 E2 B2 where l0: "loopFields e ctx path async (Suc i) fs [] [] = (st2, E2, B2)"
      by (cases "loopFields e ctx path async (Suc i) fs [] []")
    show ?thesis
    proof (rule appendsI)
      fix errs buf st errs1 buf1
      assume r: "loopFields e ctx path async i (f # fs) [] [] = (st, errs1, buf1)"
      show "loopFields e ctx path async i (f # fs) errs buf = (st, errs @ errs1, buf @ buf1)"
        using r True appends_at [OF IHa [OF True] l0] writeKey_append [of i f buf]
        by auto
    qed
  next
    case False
    obtain st1 E1 B1 where f0: "execFieldSelection e ctx f ?p False [] [] = (st1, E1, B1)"
      by (cases "execFieldSelection e ctx f ?p False [] []")
    note f1 = appends_at [OF IH4 [OF False] f0]
    show ?thesis
    proof (cases st1)
      case Normal
      have l: "appends (loopFields e ctx path async (Suc i) fs)"
        using IH3 [of st1 "(errs0 @ E1, writeKey i f buf0 @ B1)" "errs0 @ E1" "writeKey i f buf0 @ B1"]
          False Normal f1 [of errs0 "writeKey i f buf0"]
        by simp
      obtain st2 E2 B2 where l0: "loopFields e ctx path async (Suc i) fs [] [] = (st2, E2, B2)"
        by (cases "loopFields e ctx path async (Suc i) fs [] []")
      show ?thesis
      proof (rule appendsI)
        fix errs buf st errs1 buf1
        assume r: "loopFields e ctx path async i (f # fs) [] [] = (st, errs1, buf1)"
        show "loopFields e ctx path async i (f # fs) errs buf = (st, errs @ errs1, buf @ buf1)"
          using r False Normal f1 [of "[]" "writeKey i f []"] f1 [of errs "writeKey i f buf"]
            appends_at [OF l l0] writeKey_append [of i f buf]
          by auto
      qed
    next
      case (Panic p)
      show ?thesis
      proof (rule appendsI)
        fix errs buf st errs1 buf1
        assume r: "loopFields e ctx path async i (f # fs) [] [] = (st, errs1, buf1)"
        show "loopFields e ctx path async i (f # fs) errs buf = (st, errs @ errs1, buf @ buf1)"
          using r False Panic f1 [of "[]" "writeKey i f []"] f1 [of errs "writeKey i f buf"]
            writeKey_append [of i f buf]
          by auto
      qed
    qed
  qed
next
  case (6 e ctx f path applyLimiter errs0 buf0)
  note IH5 = 6(1)
  show ?case
  proof (cases "resolveField e (fieldTraceCtx e ctx f) f path")
    case (Inl err)
    show ?thesis
    proof (rule appendsI)
      fix errs buf st errs1 buf1
      assume "execFieldSelection e ctx f path applyLimiter [] [] = (st, errs1, buf1)"
      with Inl
      show "execFieldSelection e ctx f path applyLimiter errs buf = (st, errs @ errs1, buf @ buf1)"
        by (auto simp add: execFieldSelection.simps)
    qed
  next
    case (Inr result)
    have a: "appends (execSelectionSet e (fieldTraceCtx e ctx f) (sels f)
        (Type (SF_Field (field f))) path result)"
      using IH5 [OF refl Inr] .
    show ?thesis
    proof (rule appendsI)
      fix errs buf st errs1 buf1
      assume "execFieldSelection e ctx f path applyLimiter [] [] = (st, errs1, buf1)"
      with Inr have "execSelectionSet e (fieldTraceCtx e ctx f) (sels f)
          (Type (SF_Field (field f))) path result [] [] = (st, errs1, buf1)"
        by (simp add: execFieldSelection.simps)
      from appends_at [OF a this, of errs buf] Inr
      show "execFieldSelection e ctx f path applyLimiter errs buf = (st, errs @ errs1, buf @ buf1)"
        by (simp add: execFieldSelection.simps)
    qed
  qed
next
  case (7 e ctx ss ty path rv errs0 buf0)
  note IH1 = 7(1) and IH6 = 7(2) and IH7 = 7(3)
  obtain t nn where u: "unwrapNonNull ty = (t, nn)"
    by (cases "unwrapNonNull ty")
  show ?case
  proof (cases "isObjectInterfaceUnion t")
    case True
    note obj = True
    show ?thesis
    proof (cases "KindIsPtr rv \<and> IsNil rv = Some True")
      case True
      show ?thesis
      proof (rule appendsI)
        fix errs buf st errs1 buf1
        assume "execSelectionSet e ctx ss ty path rv [] [] = (st, errs1, buf1)"
        with u obj True
        show "execSelectionSet e ctx ss ty path rv errs buf = (st, errs @ errs1, buf @ buf1)"
          by (auto simp add: execSelectionSet.simps split: if_splits)
      qed
    next
      case False
      have a: "appends (execSelections e ctx ss path rv False)"
        using IH1 [of t nn] u obj False by simp
      show ?thesis
      proof (rule appendsI)
        fix errs buf st errs1 buf1
        assume "execSelectionSet e ctx ss ty path rv [] [] = (st, errs1, buf1)"
        with u obj False have "execSelections e ctx ss path rv False [] [] = (st, errs1, buf1)"
          by (auto simp add: execSelectionSet.simps split: if_splits)
        from appends_at [OF a this, of errs buf] u obj False
        show "execSelectionSet e ctx ss ty path rv errs buf = (st, errs @ errs1, buf @ buf1)"
          by (auto simp add: execSelectionSet.simps split: if_splits)
      qed
    qed
  next
    case False
    note nobj = False
    show ?thesis
    proof (cases "\<exists>ofType rv1 l. \<not> (\<not> nn \<and> IsNil rv = None) \<and> \<not> (\<not> nn \<and> IsNil rv = Some True)
        \<and> (if nn then Some rv else Elem rv) = Some rv1 \<and> t = ListOf ofType \<and> Len rv1 = Some l")
      case True
      then obtain ofType rv1 l where c1: "\<not> (\<not> nn \<and> IsNil rv = None)"
        and c2: "\<not> (\<not> nn \<and> IsNil rv = Some True)"
        and c3: "(if nn then Some rv else Elem rv) = Some rv1"
        and c4: "t = ListOf ofType" and c5: "Len rv1 = Some l"
        by blast
      let ?vs = "map (Index rv1) [0..<l]"
      have eq: "execSelectionSet e ctx ss ty path rv errs buf =
          (if HasAsyncSel e ss then
             (case goList e ctx ss ofType path 0 ?vs errs of
                (errs1, entryouts) \<Rightarrow>
                  (Normal, errs1, writeEntries 0 entryouts (buf @ ''['') @ '']''))
           else
             (case loopList e ctx ss ofType path 0 ?vs errs (buf @ ''['') of
                (Normal, errs1, buf1) \<Rightarrow> (Normal, errs1, buf1 @ '']'')
              | (Panic p, errs1, buf1) \<Rightarrow> (Panic p, errs1, buf1)))" for errs buf
        using u nobj c1 c2 c3 c4 c5 by (cases nn) (auto simp add: execSelectionSet.simps)
      show ?thesis
      proof (cases "HasAsyncSel e ss")
        case True
        have g: "appendsGo (goList e ctx ss ofType path 0 ?vs)"
          using IH6 [of t nn rv1 ofType l] u nobj c1 c2 c3 c4 c5 True by simp
        obtain E1 outs where g0: "goList e ctx ss ofType path 0 ?vs [] = (E1, outs)"
          by (cases "goList e ctx ss ofType path 0 ?vs []")
        have w: "writeEntries k xs (b1 @ b2) = b1 @ writeEntries k xs b2" for k xs b1 b2
          by (induction xs arbitrary: k b2) auto
        show ?thesis
        proof (rule appendsI)
          fix errs buf st errs1 buf1
          assume "execSelectionSet e ctx ss ty path rv [] [] = (st, errs1, buf1)"
          with True g0 appendsGo_at [OF g g0, of errs] w [of 0 outs buf "''[''"]
          show "execSelectionSet e ctx ss ty path rv errs buf = (st, errs @ errs1, buf @ buf1)"
            by (auto simp add: eq)
        qed
      next
        case False
        have l: "appends (loopList e ctx ss ofType path 0 ?vs)"
          using IH7 [of t nn rv1 ofType l] u nobj c1 c2 c3 c4 c5 False by simp
        obtain st2 E2 B2 where l0: "loopList e ctx ss ofType path 0 ?vs [] [] = (st2, E2, B2)"
          by (cases "loopList e ctx ss ofType path 0 ?vs [] []")
        show ?thesis
        proof (rule appendsI)
          fix errs buf st errs1 buf1
          assume "execSelectionSet e ctx ss ty path rv [] [] = (st, errs1, buf1)"
          with False appends_at [OF l l0]
          show "execSelectionSet e ctx ss ty path rv errs buf = (st, errs @ errs1, buf @ buf1)"
            by (cases st2) (auto simp add: eq)
        qed
      qed
    next
      case False
      show ?thesis
      proof (rule appendsI)
        fix errs buf st errs1 buf1
        assume "execSelectionSet e ctx ss ty path rv [] [] = (st, errs1, buf1)"
        with u nobj False
        show "execSelectionSet e ctx ss ty path rv errs buf = (st, errs @ errs1, buf @ buf1)"
          by (auto simp add: execSelectionSet.simps split: if_splits option.splits Type.splits)
      qed
    qed
  qed
next
  case (8 e ctx ss ofType path i errs0)
  show ?case by (simp add: appendsGo_def)
next
  case (9 e ctx ss ofType path i v vs errs0)
  note IH5 = 9(1) and IH6 = 9(2)
  let ?p = "PathSegment path (PathIndex i)"
  obtain st1 E1 B1 where f0: "execSelectionSet e ctx ss ofType ?p v [] [] = (st1, E1, B1)"
    by (cases "execSelectionSet e ctx ss ofType ?p v [] []")
  have g: "appendsGo (goList e ctx ss ofType path (Suc i) vs)"
    using IH6 [of st1 "(errs0 @ E1, B1)" "errs0 @ E1" B1] appends_at [OF IH5 f0, of errs0 "[]"]
    by simp
  show ?case
  proof (rule appendsGoI)
    fix errs errs1 x
    assume r: "goList e ctx ss ofType path i (v # vs) [] = (errs1, x)"
    obtain E2 outs where g0: "goList e ctx ss ofType path (Suc i) vs [] = (E2, outs)"
      by (cases "goList e ctx ss ofType path (Suc i) vs []")
    show "goList e ctx ss ofType path i (v # vs) errs = (errs @ errs1, x)"
      using r f0 appends_at [OF IH5 f0, of errs "[]"] appendsGo_at [OF g g0]
      by (auto simp add: handlePanic_append)
  qed
next
  case (10 e ctx ss ofType path i errs0 buf0)
  show ?case by (simp add: appends_def)
next
  case (11 e ctx ss ofType path i v vs errs0 buf0)
  note IH5 = 11(1) and IH7 = 11(2)
  let ?p = "PathSegment path (PathIndex i)"
  obtain st1 E1 B1 where f0: "execSelectionSet e ctx ss ofType ?p v [] [] = (st1, E1, B1)"
    by (cases "execSelectionSet e ctx ss ofType ?p v [] []")
  note f1 = appends_at [OF IH5 f0]
  show ?case
  proof (cases st1)
    case Normal
    have l: "appends (loopList e ctx ss ofType path (Suc i) vs)"
      using IH7 [of st1 "(errs0 @ E1, (if 0 < i then buf0 @ '','' else buf0) @ B1)"
          "errs0 @ E1" "(if 0 < i then buf0 @ '','' else buf0) @ B1"]
        Normal f1 [of errs0 "if 0 < i then buf0 @ '','' else buf0"]
      by simp
    obtain st2 E2 B2 where l0: "loopList e ctx ss ofType path (Suc i) vs [] [] = (st2, E2, B2)"
      by (cases "loopList e ctx ss ofType path (Suc i) vs [] []")
    show ?thesis
    proof (rule appendsI)
      fix errs buf st errs1 buf1
      assume r: "loopList e ctx ss ofType path i (v # vs) [] [] = (st, errs1, buf1)"
      show "loopList e ctx ss ofType path i (v # vs) errs buf = (st, errs @ errs1, buf @ buf1)"
        using r Normal f1 [of "[]" "if 0 < i then '','' else []"]
          f1 [of errs "if 0 < i then buf @ '','' else buf"] appends_at [OF l l0]
        by (auto split: if_splits)
    qed
  next
    case (Panic p)
    show ?thesis
    proof (rule appendsI)
      fix errs buf st errs1 buf1
      assume r: "loopList e ctx ss ofType path i (v # vs) [] [] = (st, errs1, buf1)"
      show "loopList e ctx ss ofType path i (v # vs) errs buf = (st, errs @ errs1, buf @ buf1)"
        using r Panic f1 [of "[]" "if 0 < i then '','' else []"]
          f1 [of errs "if 0 < i then buf @ '','' else buf"]
        by (auto split: if_splits)
    qed
  qed
qed

subsection \<open>The loops, field by field and element by element\<close>

lemma joined_Suc: "joined (Suc i) xs = concat (map ((@) '','') xs)"
  by (induction xs arbitrary: i) simp_all

lemma commaJoin_Cons: "commaJoin (x # xs) = x @ concat (map ((@) '','') xs)"
  by (induction xs arbitrary: x) simp_all

lemma joined_0: "joined 0 xs = commaJoin xs"
  by (cases xs) (simp_all add: joined_Suc commaJoin_Cons)

lemma execFieldSelection_limiter:
  "execFieldSelection e ctx f path applyLimiter errs buf = execFieldSelection e ctx f path False errs buf"
  by (simp add: execFieldSelection.simps)

lemma execFieldSelection_run:
  "execFieldSelection e ctx f (PathSegment path (PathName (Alias (field f)))) applyLimiter errs buf
     = (fieldStatus e ctx path f, errs @ fieldErrs e ctx path f, buf @ fieldBytes e ctx path f)"
proof -
  obtain st E B where r: "runField e ctx path f = (st, E, B)"
    by (cases "runField e ctx path f")
  have "execFieldSelection e ctx f (PathSegment path (PathName (Alias (field f)))) False errs buf
      = (st, errs @ E, buf @ B)"
    using appends_at [OF exec_appends(4)] r by (simp add: runField_def)
  then show ?thesis
    using r execFieldSelection_limiter [of e ctx f _ applyLimiter errs buf]
    by (simp add: fieldStatus_def fieldErrs_def fieldBytes_def)
qed

lemma writeKey_entry: "writeKey i f buf @ bytes = buf @ (if i > 0 then '','' else []) @ objectEntry f bytes"
  by (simp add: writeKey_def objectEntry_def)

lemma goFields_run:
  "goFields e ctx path fs errs =
     (errs @ concat (map (\<lambda>f. handlePanic (fieldStatus e ctx path f) (fieldErrs e ctx path f)) fs),
      map (\<lambda>f. f\<lparr>out := fieldBytes e ctx path f\<rparr>) fs)"
  by (induction fs arbitrary: errs) (simp_all add: execFieldSelection_run handlePanic_append)

lemma loopFields_async:
  "loopFields e ctx path True i fs errs buf =
     (Normal, errs, buf @ joined i (map (\<lambda>f. objectEntry f (out f)) fs))"
  by (induction fs arbitrary: i buf) (simp_all add: writeKey_entry)

lemma loopFields_sync_normal:
  "\<forall>f \<in> set fs. fieldStatus e ctx path f = Normal \<Longrightarrow>
   loopFields e ctx path False i fs errs buf =
     (Normal, errs @ concat (map (fieldErrs e ctx path) fs),
      buf @ joined i (map (\<lambda>f. objectEntry f (fieldBytes e ctx path f)) fs))"
  by (induction fs arbitrary: i errs buf) (simp_all add: execFieldSelection_run writeKey_entry)

lemma loopFields_sync_panic:
  "\<forall>f \<in> set pre. fieldStatus e ctx path f = Normal \<Longrightarrow> fieldStatus e ctx path f = Panic p \<Longrightarrow>
   loopFields e ctx path False i (pre @ f # post) errs buf =
     (Panic p, errs @ concat (map (fieldErrs e ctx path) pre) @ fieldErrs e ctx path f,
      buf @ joined i (map (\<lambda>f. objectEntry f (fieldBytes e ctx path f)) (pre @ [f])))"
  by (induction pre arbitrary: i errs buf) (simp_all add: execFieldSelection_run writeKey_entry)

lemma loopFields_sync_status:
  "fst (loopFields e ctx path False i fs errs buf) = Normal \<longleftrightarrow>
   (\<forall>f \<in> set fs. fieldStatus e ctx path f = Normal)"
proof (induction fs arbitrary: i errs buf)
  case Nil
  then show ?case by simp
next
  case (Cons f fs)
  show ?case
  proof (cases "fieldStatus e ctx path f")
    case Normal
    then show ?thesis using Cons by (simp add: execFieldSelection_run)
  next
    case (Panic p)
    then show ?thesis by (simp add: execFieldSelection_run)
  qed
qed

lemma objectEntry_out [simp]: "objectEntry (f\<lparr>out := b\<rparr>) bytes = objectEntry f bytes"
  by (simp add: objectEntry_def)

lemma execSelections_async:
  assumes "collectFieldsToResolve e ss rv ([], Map.empty) = Inr (fs, m)"
    and "\<not> serially \<and> HasAsyncSel e ss"
  shows "execSelections e ctx ss path rv serially errs buf =
     (Normal,
      errs @ concat (map (\<lambda>f. handlePanic (fieldStatus e ctx path f) (fieldErrs e ctx path f)) fs),
      buf @ ''{'' @ commaJoin (entries e ctx path fs) @ ''}'')"
  using assms
  by (simp add: execSelections.simps goFields_run loopFields_async joined_0 entries_def comp_def)

lemma execSelections_sync:
  assumes "collectFieldsToResolve e ss rv ([], Map.empty) = Inr (fs, m)"
    and "\<not> (\<not> serially \<and> HasAsyncSel e ss)"
    and "\<forall>f \<in> set fs. fieldStatus e ctx path f = Normal"
  shows "execSelections e ctx ss path rv serially errs buf =
     (Normal, errs @ concat (map (fieldErrs e ctx path) fs),
      buf @ ''{'' @ commaJoin (entries e ctx path fs) @ ''}'')"
  using assms(1,2) loopFields_sync_normal [OF assms(3), of 0 errs "buf @ ''{''"]
  by (auto simp add: execSelections.simps joined_0 entries_def)

lemma execSelections_sync_panic:
  assumes "collectFieldsToResolve e ss rv ([], Map.empty) = Inr (pre @ f # post, m)"
    and "\<not> (\<not> serially \<and> HasAsyncSel e ss)"
    and "\<forall>f \<in> set pre. fieldStatus e ctx path f = Normal"
    and "fieldStatus e ctx path f = Panic p"
  shows "execSelections e ctx ss path rv serially errs buf =
     (Panic p, errs @ concat (map (fieldErrs e ctx path) pre) @ fieldErrs e ctx path f,
      buf @ ''{'' @ commaJoin (entries e ctx path (pre @ [f])))"
  using assms(1,2) loopFields_sync_panic [OF assms(3,4), of 0 post errs "buf @ ''{''"]
  by (auto simp add: execSelections.simps joined_0 entries_def)

lemma execSelections_status:
  assumes "collectFieldsToResolve e ss rv ([], Map.empty) = Inr (fs, m)"
  shows "fst (execSelections e ctx ss path rv serially errs buf) = Normal \<longleftrightarrow>
     (\<not> serially \<and> HasAsyncSel e ss) \<or> (\<forall>f \<in> set fs. fieldStatus e ctx path f = Normal)"
proof (cases "\<not> serially \<and> HasAsyncSel e ss")
  case True
  then show ?thesis using execSelections_async [OF assms True] by simp
next
  case False
  obtain st E B where l: "loopFields e ctx path False 0 fs errs (buf @ ''{'') = (st, E, B)"
    by (cases "loopFields e ctx path False 0 fs errs (buf @ ''{'')")
  have "fst (execSelections e ctx ss path rv serially errs buf) = st"
    using assms False l by (cases st) (auto simp add: execSelections.simps)
  with False l loopFields_sync_status [of e ctx path 0 fs errs "buf @ ''{''"]
  show ?thesis by auto
qed

lemma execSelectionSet_run:
  "execSelectionSet e ctx ss ofType (PathSegment path (PathIndex k)) v errs buf
     = (elemStatus e ctx ss ofType path (k, v), errs @ elemErrs e ctx ss ofType path (k, v),
        buf @ elemBytes e ctx ss ofType path (k, v))"
proof -
  obtain st E B where r: "runElem e ctx ss ofType path (k, v) = (st, E, B)"
    by (cases "runElem e ctx ss ofType path (k, v)")
  then show ?thesis
    using appends_at [OF exec_appends(5), of e ctx ss ofType "PathSegment path (PathIndex k)" v st E B errs buf]
    by (simp add: runElem_def elemStatus_def elemErrs_def elemBytes_def)
qed

lemma writeEntries_joined: "writeEntries i outs buf = buf @ joined i outs"
  by (induction outs arbitrary: i buf) simp_all

lemma goList_run:
  "goList e ctx ss ofType path i vs errs =
     (errs @ concat (map (\<lambda>kv. handlePanic (elemStatus e ctx ss ofType path kv)
                                  (elemErrs e ctx ss ofType path kv)) (enumerate i vs)),
      map (elemBytes e ctx ss ofType path) (enumerate i vs))"
  by (induction vs arbitrary: i errs) (simp_all add: execSelectionSet_run handlePanic_append)

lemma loopList_normal:
  "\<forall>kv \<in> set (enumerate i vs). elemStatus e ctx ss ofType path kv = Normal \<Longrightarrow>
   loopList e ctx ss ofType path i vs errs buf =
     (Normal, errs @ concat (map (elemErrs e ctx ss ofType path) (enumerate i vs)),
      buf @ joined i (map (elemBytes e ctx ss ofType path) (enumerate i vs)))"
  by (induction vs arbitrary: i errs buf) (simp_all add: execSelectionSet_run)

lemma loopList_status:
  "fst (loopList e ctx ss ofType path i vs errs buf) = Normal \<longleftrightarrow>
   (\<forall>kv \<in> set (enumerate i vs). elemStatus e ctx ss ofType path kv = Normal)"
proof (induction vs arbitrary: i errs buf)
  case Nil
  then show ?case by simp
next
  case (Cons v vs)
  show ?case
  proof (cases "elemStatus e ctx ss ofType path (i, v)")
    case Normal
    then show ?thesis using Cons by (simp add: execSelectionSet_run)
  next
    case (Panic p)
    then show ?thesis by (simp add: execSelectionSet_run)
  qed
qed


lemma execSelectionSet_list:
  assumes "listElems ty rv = Some (ofType, vs)"
  shows "execSelectionSet e ctx ss ty path rv errs buf =
     (if HasAsyncSel e ss then
        (case goList e ctx ss ofType path 0 vs errs of
           (errs1, entryouts) \<Rightarrow> (Normal, errs1, writeEntries 0 entryouts (buf @ ''['') @ '']''))
      else
        (case loopList e ctx ss ofType path 0 vs errs (buf @ ''['') of
           (Normal, errs1, buf1) \<Rightarrow> (Normal, errs1, buf1 @ '']'')
         | (Panic p, errs1, buf1) \<Rightarrow> (Panic p, errs1, buf1)))"
  using assms
  by (induction ty rv rule: listElems.induct)
    (auto simp add: execSelectionSet.simps split: option.splits)

subsection \<open>Concurrent and strictly sequential execution\<close>

lemma sequential_simps [simp]:
  "HasAsyncSel (sequential e) ss = False"
  "Call (sequential e) = Call e"
  "Assert (sequential e) = Assert e"
  "TraceField (sequential e) = TraceField e"
  "MetaFieldTypename (sequential e) = MetaFieldTypename e"
  "json_Marshal (sequential e) = json_Marshal e"
  "ValueString (sequential e) = ValueString e"
  by (simp_all add: sequential_def)

lemma typeOf_loop_sequential [simp]: "typeOf_loop (sequential e) tas rv = typeOf_loop e tas rv"
  by (induction tas) (auto split: assert_result.splits)

lemma typeOf_sequential [simp]: "typeOf (sequential e) name tas rv = typeOf e name tas rv"
  by (simp add: typeOf_def)

lemma collect_sequential [simp]:
  "collectFieldsToResolve (sequential e) ss rv c = collectFieldsToResolve e ss rv c"
proof (induction e ss rv c rule: collectFieldsToResolve.induct)
  case (1 e rv fs fieldByAlias)
  then show ?case by simp
next
  case (2 e sel ss rest rv fs fieldByAlias)
  then show ?case by (cases "fieldByAlias (Alias sel)") simp_all
next
  case (3 e name al tas rest rv fs fieldByAlias)
  then show ?case by (cases "typeOf e name tas rv") simp_all
next
  case (4 e idx ss rest rv fs fieldByAlias)
  show ?case
  proof (cases "Assert e rv idx")
    case (AssertPanics p)
    then show ?thesis by simp
  next
    case (AssertReturns v b)
    show ?thesis
    proof (cases b)
      case True
      with AssertReturns 4(2) [OF AssertReturns] 4(3) [OF AssertReturns] show ?thesis
        by (cases "collectFieldsToResolve e ss v (fs, fieldByAlias)") simp_all
    next
      case False
      with AssertReturns 4(1) [OF AssertReturns] show ?thesis by simp
    qed
  qed
qed

lemma fieldTraceCtx_sequential [simp]: "fieldTraceCtx (sequential e) ctx f = fieldTraceCtx e ctx f"
  by (simp add: fieldTraceCtx_def)

lemma resolveField_sequential [simp]: "resolveField (sequential e) c f path = resolveField e c f path"
  by (simp add: resolveField_def cong: option.case_cong)

lemma String_of_sequential [simp]: "String_of (sequential e) v = String_of e v"
  by (cases v) simp_all

lemma agrees_refl [simp]: "agrees a a"
  by (simp add: agrees_def)

lemma agrees_fields:
  assumes "\<forall>f \<in> set fs. agrees (runField e1 ctx path f) (runField e ctx path f)"
    and "\<forall>f \<in> set fs. fieldStatus e1 ctx path f = Normal"
  shows "\<forall>f \<in> set fs. fieldStatus e ctx path f = Normal"
    and "map (fieldErrs e ctx path) fs = map (fieldErrs e1 ctx path) fs"
    and "entries e ctx path fs = entries e1 ctx path fs"
    and "map (\<lambda>g. handlePanic (fieldStatus e ctx path g) (fieldErrs e ctx path g)) fs
         = map (fieldErrs e1 ctx path) fs"
proof -
  have eq: "runField e ctx path f = runField e1 ctx path f" if "f \<in> set fs" for f
    using assms that by (simp add: agrees_def fieldStatus_def)
  show "\<forall>f \<in> set fs. fieldStatus e ctx path f = Normal"
    using assms(2) eq by (simp add: fieldStatus_def)
  then show "map (\<lambda>g. handlePanic (fieldStatus e ctx path g) (fieldErrs e ctx path g)) fs
       = map (fieldErrs e1 ctx path) fs"
    using eq by (simp add: fieldErrs_def handlePanic_def)
  show "map (fieldErrs e ctx path) fs = map (fieldErrs e1 ctx path) fs"
    using eq by (simp add: fieldErrs_def)
  show "entries e ctx path fs = entries e1 ctx path fs"
    using eq by (simp add: entries_def fieldBytes_def)
qed

lemma agrees_elems:
  assumes "\<forall>kv \<in> set kvs. agrees (runElem e1 ctx ss t path kv) (runElem e ctx ss t path kv)"
    and "\<forall>kv \<in> set kvs. elemStatus e1 ctx ss t path kv = Normal"
  shows "\<forall>kv \<in> set kvs. elemStatus e ctx ss t path kv = Normal"
    and "map (elemErrs e ctx ss t path) kvs = map (elemErrs e1 ctx ss t path) kvs"
    and "map (elemBytes e ctx ss t path) kvs = map (elemBytes e1 ctx ss t path) kvs"
    and "map (\<lambda>kv. handlePanic (elemStatus e ctx ss t path kv) (elemErrs e ctx ss t path kv)) kvs
         = map (elemErrs e1 ctx ss t path) kvs"
proof -
  have eq: "runElem e ctx ss t path kv = runElem e1 ctx ss t path kv" if "kv \<in> set kvs" for kv
    using assms that by (simp add: agrees_def elemStatus_def)
  show "\<forall>kv \<in> set kvs. elemStatus e ctx ss t path kv = Normal"
    using assms(2) eq by (simp add: elemStatus_def)
  then show "map (\<lambda>kv. handlePanic (elemStatus e ctx ss t path kv) (elemErrs e ctx ss t path kv)) kvs
       = map (elemErrs e1 ctx ss t path) kvs"
    using eq by (simp add: elemErrs_def handlePanic_def)
  show "map (elemErrs e ctx ss t path) kvs = map (elemErrs e1 ctx ss t path) kvs"
    using eq by (simp add: elemErrs_def)
  show "map (elemBytes e ctx ss t path) kvs = map (elemBytes e1 ctx ss t path) kvs"
    using eq by (simp add: elemBytes_def)
qed

lemma sequential_agrees:
  fixes errs0 :: "QueryError list" and buf0 :: string and applyLimiter :: bool and serially :: bool
  shows "agrees (execSelections (sequential e) ctx ss path rv serially [] [])
           (execSelections e ctx ss path rv serially [] [])"
    and "\<forall>f \<in> set fs. agrees (runField (sequential e) ctx path f) (runField e ctx path f)"
    and "\<not> async \<longrightarrow> (\<forall>f \<in> set fs. fieldStatus (sequential e) ctx path f = Normal) \<longrightarrow>
           (\<forall>f \<in> set fs. agrees (runField (sequential e) ctx path f) (runField e ctx path f))"
    and "agrees (execFieldSelection (sequential e) ctx f path False [] [])
           (execFieldSelection e ctx f path False [] [])"
    and "agrees (execSelectionSet (sequential e) ctx ss ty path rv [] [])
           (execSelectionSet e ctx ss ty path rv [] [])"
    and "\<forall>kv \<in> set (enumerate i vs).
           agrees (runElem (sequential e) ctx ss ofType path kv) (runElem e ctx ss ofType path kv)"
    and "(\<forall>kv \<in> set (enumerate i vs). elemStatus (sequential e) ctx ss ofType path kv = Normal) \<longrightarrow>
           (\<forall>kv \<in> set (enumerate i vs).
              agrees (runElem (sequential e) ctx ss ofType path kv) (runElem e ctx ss ofType path kv))"
proof (induct e ctx ss path rv serially errs0 buf0
    and e ctx path fs errs0
    and e ctx path async i fs errs0 buf0
    and e ctx f path applyLimiter errs0 buf0
    and e ctx ss ty path rv errs0 buf0
    and e ctx ss ofType path i vs errs0
    and e ctx ss ofType path i vs errs0 buf0
    rule: execSelections_goFields_loopFields_execFieldSelection_execSelectionSet_goList_loopList.induct)
  case (1 e ctx ss path rv serially errs0 buf0)
  note IH2 = 1(1) and IH3 = 1(2)
  show ?case
  proof (cases "collectFieldsToResolve e ss rv ([], Map.empty)")
    case (Inl p)
    then show ?thesis by (simp add: agrees_def execSelections.simps)
  next
    case (Inr c)
    obtain fs m where "c = (fs, m)" by (cases c)
    with Inr have col: "collectFieldsToResolve e ss rv ([], Map.empty) = Inr (fs, m)"
      by simp
    then have cols: "collectFieldsToResolve (sequential e) ss rv ([], Map.empty) = Inr (fs, m)"
      by simp
    have nas: "\<not> (\<not> serially \<and> HasAsyncSel (sequential e) ss)"
      by simp
    show ?thesis
      unfolding agrees_def
    proof
      assume "fst (execSelections (sequential e) ctx ss path rv serially [] []) = Normal"
      with execSelections_status [OF cols, of ctx path serially "[]" "[]"]
      have allN: "\<forall>f \<in> set fs. fieldStatus (sequential e) ctx path f = Normal"
        by simp
      note sq = execSelections_sync [OF cols nas allN, of "[]" "[]"]
      have ag: "\<forall>f \<in> set fs. agrees (runField (sequential e) ctx path f) (runField e ctx path f)"
      proof (cases "\<not> serially \<and> HasAsyncSel e ss")
        case True
        then show ?thesis using IH2 [of True "(fs, m)" fs m] col by simp
      next
        case False
        then show ?thesis using IH3 [of False "(fs, m)" fs m errs0 fs] col allN by simp
      qed
      note facts = agrees_fields [OF ag allN]
      show "execSelections e ctx ss path rv serially [] []
          = execSelections (sequential e) ctx ss path rv serially [] []"
      proof (cases "\<not> serially \<and> HasAsyncSel e ss")
        case True
        show ?thesis using execSelections_async [OF col True, of ctx path "[]" "[]"] sq facts
          by simp
      next
        case False
        show ?thesis using execSelections_sync [OF col False facts(1), of "[]" "[]"] sq facts
          by simp
      qed
    qed
  qed
next
  case (2 e ctx path errs0)
  show ?case by simp
next
  case (3 e ctx path f fs errs0)
  note IH4 = 3(1) and IH2 = 3(2)
  let ?p = "PathSegment path (PathName (Alias (field f)))"
  obtain st1 E1 B1 where f0: "execFieldSelection e ctx f ?p True errs0 [] = (st1, E1, B1)"
    by (cases "execFieldSelection e ctx f ?p True errs0 []")
  have "\<forall>g \<in> set fs. agrees (runField (sequential e) ctx path g) (runField e ctx path g)"
    using IH2 [of st1 "(E1, B1)" E1 B1] f0 by simp
  with IH4 show ?case by (simp add: runField_def)
next
  case (4 e ctx path async i errs0 buf0)
  show ?case by simp
next
  case (5 e ctx path async i f fs errs0 buf0)
  note IH4 = 5(2) and IH3 = 5(3)
  let ?p = "PathSegment path (PathName (Alias (field f)))"
  show ?case
  proof (intro impI)
    assume na: "\<not> async"
      and allN: "\<forall>g \<in> set (f # fs). fieldStatus (sequential e) ctx path g = Normal"
    have af: "agrees (runField (sequential e) ctx path f) (runField e ctx path f)"
      using IH4 [OF na] by (simp add: runField_def)
    with allN have "fieldStatus e ctx path f = Normal"
      by (simp add: agrees_def fieldStatus_def)
    then have "execFieldSelection e ctx f ?p False errs0 (writeKey i f buf0)
        = (Normal, errs0 @ fieldErrs e ctx path f, writeKey i f buf0 @ fieldBytes e ctx path f)"
      by (simp add: execFieldSelection_run)
    from IH3 [OF na this [symmetric] refl refl] na allN
    have "\<forall>g \<in> set fs. agrees (runField (sequential e) ctx path g) (runField e ctx path g)"
      by simp
    with af show "\<forall>g \<in> set (f # fs). agrees (runField (sequential e) ctx path g) (runField e ctx path g)"
      by simp
  qed
next
  case (6 e ctx f path applyLimiter errs0 buf0)
  note IH5 = 6(1)
  show ?case
  proof (cases "resolveField e (fieldTraceCtx e ctx f) f path")
    case (Inl err)
    then show ?thesis by (simp add: execFieldSelection.simps)
  next
    case (Inr result)
    with IH5 [OF refl Inr] show ?thesis by (simp add: execFieldSelection.simps)
  qed
next
  case (7 e ctx ss ty path rv errs0 buf0)
  note IH1 = 7(1) and IH6 = 7(2) and IH7 = 7(3)
  obtain t nn where u: "unwrapNonNull ty = (t, nn)"
    by (cases "unwrapNonNull ty")
  show ?case
  proof (cases "isObjectInterfaceUnion t")
    case True
    note obj = True
    show ?thesis
    proof (cases "KindIsPtr rv \<and> IsNil rv = Some True")
      case True
      with u obj have "execSelectionSet (sequential e) ctx ss ty path rv [] []
          = execSelectionSet e ctx ss ty path rv [] []"
        by (auto simp add: execSelectionSet.simps split: if_splits)
      then show ?thesis by simp
    next
      case False
      have "execSelectionSet x ctx ss ty path rv [] [] = execSelections x ctx ss path rv False [] []"
        for x
        using u obj False by (auto simp add: execSelectionSet.simps split: if_splits)
      with IH1 [of t nn] u obj False show ?thesis by simp
    qed
  next
    case False
    note nobj = False
    show ?thesis
    proof (cases "\<exists>ofType rv1 l. \<not> (\<not> nn \<and> IsNil rv = None) \<and> \<not> (\<not> nn \<and> IsNil rv = Some True)
        \<and> (if nn then Some rv else Elem rv) = Some rv1 \<and> t = ListOf ofType \<and> Len rv1 = Some l")
      case True
      then obtain ofType rv1 l where c1: "\<not> (\<not> nn \<and> IsNil rv = None)"
        and c2: "\<not> (\<not> nn \<and> IsNil rv = Some True)"
        and c3: "(if nn then Some rv else Elem rv) = Some rv1"
        and c4: "t = ListOf ofType" and c5: "Len rv1 = Some l"
        by blast
      let ?vs = "map (Index rv1) [0..<l]"
      have eq: "execSelectionSet x ctx ss ty path rv errs buf =
          (if HasAsyncSel x ss then
             (case goList x ctx ss ofType path 0 ?vs errs of
                (errs1, entryouts) \<Rightarrow>
                  (Normal, errs1, writeEntries 0 entryouts (buf @ ''['') @ '']''))
           else
             (case loopList x ctx ss ofType path 0 ?vs errs (buf @ ''['') of
                (Normal, errs1, buf1) \<Rightarrow> (Normal, errs1, buf1 @ '']'')
              | (Panic p, errs1, buf1) \<Rightarrow> (Panic p, errs1, buf1)))" for x errs buf
        using u nobj c1 c2 c3 c4 c5 by (cases nn) (auto simp add: execSelectionSet.simps)
      show ?thesis
        unfolding agrees_def
      proof
        assume n: "fst (execSelectionSet (sequential e) ctx ss ty path rv [] []) = Normal"
        obtain st2 E2 B2 where l0:
          "loopList (sequential e) ctx ss ofType path 0 ?vs [] ''['' = (st2, E2, B2)"
          by (cases "loopList (sequential e) ctx ss ofType path 0 ?vs [] ''[''")
        with n have "st2 = Normal"
          by (cases st2) (simp_all add: eq)
        with l0 loopList_status [of "sequential e" ctx ss ofType path 0 ?vs "[]" "''[''"]
        have allN: "\<forall>kv \<in> set (enumerate 0 ?vs).
            elemStatus (sequential e) ctx ss ofType path kv = Normal"
          by simp
        note sq = loopList_normal [OF allN, of "[]" "''[''"]
        have ag: "\<forall>kv \<in> set (enumerate 0 ?vs).
            agrees (runElem (sequential e) ctx ss ofType path kv) (runElem e ctx ss ofType path kv)"
        proof (cases "HasAsyncSel e ss")
          case True
          then show ?thesis
            using IH6 [of t nn rv1 ofType l] u nobj c1 c2 c3 c4 c5 by simp
        next
          case False
          then show ?thesis
            using IH7 [of t nn rv1 ofType l] u nobj c1 c2 c3 c4 c5 allN by simp
        qed
        note facts = agrees_elems [OF ag allN]
        have s: "execSelectionSet (sequential e) ctx ss ty path rv [] [] =
            (Normal, concat (map (elemErrs (sequential e) ctx ss ofType path) (enumerate 0 ?vs)),
             ''['' @ joined 0 (map (elemBytes (sequential e) ctx ss ofType path) (enumerate 0 ?vs))
               @ '']'')"
          using sq by (simp add: eq)
        show "execSelectionSet e ctx ss ty path rv [] []
            = execSelectionSet (sequential e) ctx ss ty path rv [] []"
        proof (cases "HasAsyncSel e ss")
          case True
          then have "execSelectionSet e ctx ss ty path rv [] [] =
              (Normal,
               concat (map (\<lambda>kv. handlePanic (elemStatus e ctx ss ofType path kv)
                                     (elemErrs e ctx ss ofType path kv)) (enumerate 0 ?vs)),
               ''['' @ joined 0 (map (elemBytes e ctx ss ofType path) (enumerate 0 ?vs)) @ '']'')"
            by (simp add: eq goList_run writeEntries_joined)
          also have "\<dots> = execSelectionSet (sequential e) ctx ss ty path rv [] []"
            by (simp only: facts s)
          finally show ?thesis .
        next
          case False
          then have "execSelectionSet e ctx ss ty path rv [] [] =
              (Normal, concat (map (elemErrs e ctx ss ofType path) (enumerate 0 ?vs)),
               ''['' @ joined 0 (map (elemBytes e ctx ss ofType path) (enumerate 0 ?vs)) @ '']'')"
            using loopList_normal [OF facts(1), of "[]" "''[''"] by (simp add: eq)
          also have "\<dots> = execSelectionSet (sequential e) ctx ss ty path rv [] []"
            by (simp only: facts s)
          finally show ?thesis .
        qed
      qed
    next
      case False
      with u nobj have "execSelectionSet (sequential e) ctx ss ty path rv [] []
          = execSelectionSet e ctx ss ty path rv [] []"
        by (auto simp add: execSelectionSet.simps split: if_splits option.splits Type.splits)
      then show ?thesis by simp
    qed
  qed
next
  case (8 e ctx ss ofType path i errs0)
  show ?case by simp
next
  case (9 e ctx ss ofType path i v vs errs0)
  note IH5 = 9(1) and IH6 = 9(2)
  let ?p = "PathSegment path (PathIndex i)"
  obtain st1 E1 B1 where f0: "execSelectionSet e ctx ss ofType ?p v errs0 [] = (st1, E1, B1)"
    by (cases "execSelectionSet e ctx ss ofType ?p v errs0 []")
  have "\<forall>kv \<in> set (enumerate (Suc i) vs).
      agrees (runElem (sequential e) ctx ss ofType path kv) (runElem e ctx ss ofType path kv)"
    using IH6 [of st1 "(E1, B1)" E1 B1] f0 by simp
  with IH5 show ?case by (simp add: runElem_def)
next
  case (10 e ctx ss ofType path i errs0 buf0)
  show ?case by simp
next
  case (11 e ctx ss ofType path i v vs errs0 buf0)
  note IH5 = 11(1) and IH7 = 11(2)
  let ?p = "PathSegment path (PathIndex i)"
  show ?case
  proof (intro impI)
    assume allN: "\<forall>kv \<in> set (enumerate i (v # vs)). elemStatus (sequential e) ctx ss ofType path kv = Normal"
    have af: "agrees (runElem (sequential e) ctx ss ofType path (i, v)) (runElem e ctx ss ofType path (i, v))"
      using IH5 by (simp add: runElem_def)
    with allN have "elemStatus e ctx ss ofType path (i, v) = Normal"
      by (simp add: agrees_def elemStatus_def)
    then have "execSelectionSet e ctx ss ofType ?p v errs0 (if 0 < i then buf0 @ '','' else buf0)
        = (Normal, errs0 @ elemErrs e ctx ss ofType path (i, v),
           (if 0 < i then buf0 @ '','' else buf0) @ elemBytes e ctx ss ofType path (i, v))"
      by (simp add: execSelectionSet_run)
    from IH7 [OF this [symmetric] refl refl] allN
    have "\<forall>kv \<in> set (enumerate (Suc i) vs).
        agrees (runElem (sequential e) ctx ss ofType path kv) (runElem e ctx ss ofType path kv)"
      by simp
    with af show "\<forall>kv \<in> set (enumerate i (v # vs)).
        agrees (runElem (sequential e) ctx ss ofType path kv) (runElem e ctx ss ofType path kv)"
      by simp
  qed
qed

subsection \<open>From a field to the response\<close>

text \<open>
  What \<open>execFieldSelection\<close> returns when its resolver call has given a result is what
  \<open>execSelectionSet\<close> returns for that result; what \<open>execSelectionSet\<close> returns for a
  nil pointer, a nil slice, a scalar, an enum and an object; and what \<open>Execute\<close> returns
  when the context is not cancelled.
\<close>

lemma execFieldSelection_result:
  "resolveField e (fieldTraceCtx e ctx f) f path = Inr result \<Longrightarrow>
   execFieldSelection e ctx f path applyLimiter errs buf =
     execSelectionSet e (fieldTraceCtx e ctx f) (sels f) (Type (SF_Field (field f))) path result
       errs buf"
  by (simp add: execFieldSelection.simps)

lemma execSelectionSet_nil_pointer:
  "isObjectInterfaceUnion t \<or> t = ListOf ofType \<Longrightarrow>
   execSelectionSet e ctx ss (NonNull t) path NilPtr errs buf =
     (Panic (if isObjectInterfaceUnion t then GotNilForNonNull t else ReflectPanic), errs, buf)"
  by (auto simp add: execSelectionSet.simps)


lemma execSelectionSet_scalar:
  "IsValid rv \<Longrightarrow>
   execSelectionSet e ctx ss (NonNull (Scalar n)) path rv errs buf =
     (case json_Marshal e rv of
        None \<Rightarrow> (Panic (CouldNotMarshal rv), errs, buf)
      | Some data \<Rightarrow> (Normal, errs, buf @ data))"
  by (cases rv) (auto simp add: execSelectionSet.simps split: option.splits)

lemma execSelectionSet_enum:
  "execSelectionSet e ctx ss (NonNull (Enum n)) path rv errs buf =
     (Normal, errs, buf @ ''\"'' @ String_of e rv @ ''\"'')"
  by (simp add: execSelectionSet.simps)

lemma execSelectionSet_nil_slice:
  "execSelectionSet e ctx ss (NonNull (ListOf ofType)) path NilSlice errs buf =
     (Normal, errs, buf @ ''[]'')"
  by (simp add: execSelectionSet.simps)

lemma Execute_uncancelled:
  "ApplyOperation e s op = ApplyReturns ss added \<Longrightarrow> Err ctx = None \<Longrightarrow>
   execSelections e ctx ss NoSegment (Resolver s) (OpType op = Mutation) (Errs r @ added) []
     = (st, errs1, buf1) \<Longrightarrow>
   Execute e r ctx s op = (buf1, handlePanic st errs1)"
  by (simp add: Execute_def Execute_walk_def)

lemma runField_nil_pointer:
  assumes "isObjectInterfaceUnion t \<or> t = ListOf ofType"
    and "Type (SF_Field (field f)) = NonNull t"
    and "resolveField e (fieldTraceCtx e ctx f) f (PathSegment path (PathName (Alias (field f))))
           = Inr NilPtr"
  shows "fieldStatus e ctx path f
           = Panic (if isObjectInterfaceUnion t then GotNilForNonNull t else ReflectPanic)"
    and "fieldErrs e ctx path f = []"
    and "fieldBytes e ctx path f = []"
  using execFieldSelection_result [OF assms(3), of False "[]" "[]"]
    execSelectionSet_nil_pointer [OF assms(1)] assms(2)
  by (simp_all add: fieldStatus_def fieldErrs_def fieldBytes_def runField_def)

subsection \<open>The scenario of the specification\<close>

text \<open>
  The root query selects \<open>a: Int!\<close> and \<open>b: String\<close>; the resolver of \<open>a\<close> returns 5 and
  the resolver of \<open>b\<close> fails. The body is \<open>{"a":5,"b":null}\<close> and there is one error,
  with the path \<open>["b"]\<close>.
\<close>

lemma scenario:
  "Execute (demoEnv [demoA, demoB]) \<lparr>Errs = []\<rparr> background \<lparr>Resolver = Other 1\<rparr> \<lparr>OpType = Query\<rparr>
   = (''{\"a\":5,\"b\":null}'',
      [\<lparr>Message = ''boom'', Path = [PathName ''b''], OriginalError = Some (GoError 1 ''boom''),
        PanicValue = None\<rparr>])"
  by (simp add: demo_defs)

subsection \<open>Resolver errors\<close>



subsection \<open>Cancellation\<close>

text \<open>
  C2. When the context is cancelled at the check that follows the walk, \<open>Execute\<close>
  returns no bytes and exactly one error, made of the text of the context's error, with
  that error as its original error; whatever the walk wrote or collected is dropped.
\<close>

theorem cancelled_execute_returns_one_error:
  "Err ctx = Some err \<Longrightarrow>
   Execute e r ctx s op =
     ([], [\<lparr>Message = Error err, Path = [], OriginalError = Some err, PanicValue = None\<rparr>])"
  by (simp add: Execute_def Errorf_def split: prod.splits)

text \<open>
  The scenario under a cancelled context: the walk has written a body and collected
  two errors, and \<open>Execute\<close> returns neither.
\<close>

theorem cancelled_execute_witness:
  "Execute_walk (demoEnv [demoA, demoB]) \<lparr>Errs = []\<rparr>
     (Context 0 (Some (GoError 2 ''context canceled''))) \<lparr>Resolver = Other 1\<rparr> \<lparr>OpType = Query\<rparr>
   = (Normal,
      [\<lparr>Message = ''context canceled'', Path = [], OriginalError = None, PanicValue = None\<rparr>,
       \<lparr>Message = ''context canceled'', Path = [], OriginalError = None, PanicValue = None\<rparr>],
      ''{\"a\":null,\"b\":null}'')
   \<and> Execute (demoEnv [demoA, demoB]) \<lparr>Errs = []\<rparr>
       (Context 0 (Some (GoError 2 ''context canceled''))) \<lparr>Resolver = Other 1\<rparr> \<lparr>OpType = Query\<rparr>
     = ([], [\<lparr>Message = ''context canceled'', Path = [],
              OriginalError = Some (GoError 2 ''context canceled''), PanicValue = None\<rparr>])"
  using cancelled_execute_returns_one_error
    [where ctx = "Context 0 (Some (GoError 2 ''context canceled''))"
       and err = "GoError 2 ''context canceled''" and e = "demoEnv [demoA, demoB]"
       and r = "\<lparr>Errs = []\<rparr>" and s = "\<lparr>Resolver = Other 1\<rparr>" and op = "\<lparr>OpType = Query\<rparr>"]
  by (simp add: demo_defs)

text \<open>
  C7. A field without a fixed result whose context is cancelled: the resolver is not
  called, the field is written as \<open>null\<close> and one error is added; but that error is
  \<open>errors.Errorf("%s", err)\<close> as it is: it has the text of the cancellation only, no
  path and no original error, where the resolver-error branch of the same closure
  sets both. Here for the field \<open>b\<close> of the scenario.
\<close>

theorem cancelled_field_error_has_no_path_and_no_cause:
  "execFieldSelection (demoEnv []) (Context 0 (Some (GoError 2 ''context canceled'')))
     \<lparr>field = demoField ''b'' (Scalar ''String'') 1 True False, sels = [], resolver = Other 1,
      out = []\<rparr>
     (PathSegment NoSegment (PathName ''b'')) False [] ''{\"b\":''
   = (Normal,
      [\<lparr>Message = ''context canceled'', Path = [], OriginalError = None, PanicValue = None\<rparr>],
      ''{\"b\":null'')"
  by (simp add: demo_defs)

subsection \<open>Non-null types\<close>

text \<open>
  C5, as the claim states it, fails for the absent values that are not nil pointers.
  \<open>execSelectionSet\<close> tests absence with \<open>IsNil\<close>, which also holds of a nil slice. A
  field \<open>xs: [Int!]!\<close> whose resolver returns a nil slice is written as \<open>[]\<close>, with no
  error. A field \<open>tags: Tags!\<close> of a custom scalar whose Go type is a slice, and whose
  resolver returns a nil slice, is marshalled as it is: the body is \<open>{"tags":null}\<close> and
  there is no error.
\<close>

theorem non_null_nil_slice_is_written_without_error:
  "Execute (demoEnv [SchemaField (demoField ''xs'' (NonNull (ListOf (NonNull (Scalar ''Int''))))
                        5 False False) []])
     \<lparr>Errs = []\<rparr> background \<lparr>Resolver = Other 1\<rparr> \<lparr>OpType = Query\<rparr>
   = (''{\"xs\":[]}'', [])
   \<and> Execute (demoEnv [SchemaField (demoField ''tags'' (NonNull (Scalar ''Tags'')) 5 False False) []])
       \<lparr>Errs = []\<rparr> background \<lparr>Resolver = Other 1\<rparr> \<lparr>OpType = Query\<rparr>
     = (''{\"tags\":null}'', [])"
  by (simp add: demo_defs)

text \<open>
  C5, amended. For a non-null object, interface, union or list type, a nil pointer is
  never written as \<open>null\<close>: \<open>execSelectionSet\<close> writes nothing and panics, with "got nil
  for non-null" for the first three and inside \<open>reflect\<close> for a list. The execution of
  the field returns that panic and has written nothing for the field. In a concurrent
  selection set the goroutine of the field adds exactly one error for it, without a
  path, and the entry of the field is its key alone; in a serial selection set at the
  root, \<open>Execute\<close> returns the body up to the key of the field and adds that one error
  last. A nil slice under a non-null list is written as \<open>[]\<close>. A non-null scalar is
  written as \<open>json.Marshal\<close> encodes it, whatever the value, and panics only when
  \<open>json.Marshal\<close> fails; a non-null enum is written as the quoted \<open>String()\<close> of its
  value and adds no error.
\<close>

theorem non_null_nil_pointer_panics_into_one_error:
  assumes kind: "isObjectInterfaceUnion t \<or> t = ListOf ofType"
    and p: "p = (if isObjectInterfaceUnion t then GotNilForNonNull t else ReflectPanic)"
  shows
  "execSelectionSet e ctx ss (NonNull t) path NilPtr errs buf = (Panic p, errs, buf)
   \<and> (Type (SF_Field (field f)) = NonNull t
      \<and> resolveField e (fieldTraceCtx e ctx f) f path = Inr NilPtr \<longrightarrow>
      execFieldSelection e ctx f path applyLimiter errs buf = (Panic p, errs, buf))
   \<and> (collectFieldsToResolve e ss rv ([], Map.empty) = Inr (fs, m)
      \<and> \<not> serially \<and> HasAsyncSel e ss \<and> g \<in> set fs
      \<and> Type (SF_Field (field g)) = NonNull t
      \<and> resolveField e (fieldTraceCtx e ctx g) g (PathSegment path (PathName (Alias (field g))))
          = Inr NilPtr \<longrightarrow>
      fst (execSelections e ctx ss path rv serially errs buf) = Normal
      \<and> snd (snd (execSelections e ctx ss path rv serially errs buf))
          = buf @ ''{'' @ commaJoin (entries e ctx path fs) @ ''}''
      \<and> fieldBytes e ctx path g = []
      \<and> mset (fst (snd (execSelections e ctx ss path rv serially errs buf)))
          = mset errs
            + mset (concat (map (\<lambda>x. handlePanic (fieldStatus e ctx path x) (fieldErrs e ctx path x)) fs))
      \<and> handlePanic (fieldStatus e ctx path g) (fieldErrs e ctx path g) = [panicError p])
   \<and> (ApplyOperation e s op = ApplyReturns root added
      \<and> collectFieldsToResolve e root (Resolver s) ([], Map.empty) = Inr (pre @ h # post, mr)
      \<and> \<not> (OpType op \<noteq> Mutation \<and> HasAsyncSel e root)
      \<and> (\<forall>x \<in> set pre. fieldStatus e ctx NoSegment x = Normal)
      \<and> Type (SF_Field (field h)) = NonNull t
      \<and> resolveField e (fieldTraceCtx e ctx h) h (PathSegment NoSegment (PathName (Alias (field h))))
          = Inr NilPtr
      \<and> Err ctx = None \<longrightarrow>
      fst (Execute e r ctx s op)
        = ''{'' @ commaJoin (entries e ctx NoSegment pre @ [objectEntry h []])
      \<and> mset (snd (Execute e r ctx s op))
          = mset (Errs r @ added @ concat (map (fieldErrs e ctx NoSegment) pre)) + {#panicError p#}
      \<and> last (snd (Execute e r ctx s op)) = panicError p)
   \<and> execSelectionSet e ctx ss (NonNull (ListOf ofType)) path NilSlice errs buf
       = (Normal, errs, buf @ ''[]'')
   \<and> (IsValid v \<longrightarrow>
      execSelectionSet e ctx ss (NonNull (Scalar n)) path v errs buf
        = (case json_Marshal e v of
             None \<Rightarrow> (Panic (CouldNotMarshal v), errs, buf)
           | Some data \<Rightarrow> (Normal, errs, buf @ data)))
   \<and> execSelectionSet e ctx ss (NonNull (Enum n)) path v errs buf
       = (Normal, errs, buf @ ''\"'' @ String_of e v @ ''\"'')"
proof -
  have h1: "execSelectionSet e ctx ss (NonNull t) path NilPtr errs buf = (Panic p, errs, buf)"
    using execSelectionSet_nil_pointer [OF kind] p by simp
  have h2: "Type (SF_Field (field f)) = NonNull t
      \<and> resolveField e (fieldTraceCtx e ctx f) f path = Inr NilPtr \<longrightarrow>
      execFieldSelection e ctx f path applyLimiter errs buf = (Panic p, errs, buf)"
    using execSelectionSet_nil_pointer [OF kind] p by (simp add: execFieldSelection_result)
  have h3: "collectFieldsToResolve e ss rv ([], Map.empty) = Inr (fs, m)
      \<and> \<not> serially \<and> HasAsyncSel e ss \<and> g \<in> set fs
      \<and> Type (SF_Field (field g)) = NonNull t
      \<and> resolveField e (fieldTraceCtx e ctx g) g (PathSegment path (PathName (Alias (field g))))
          = Inr NilPtr \<longrightarrow>
      fst (execSelections e ctx ss path rv serially errs buf) = Normal
      \<and> snd (snd (execSelections e ctx ss path rv serially errs buf))
          = buf @ ''{'' @ commaJoin (entries e ctx path fs) @ ''}''
      \<and> fieldBytes e ctx path g = []
      \<and> mset (fst (snd (execSelections e ctx ss path rv serially errs buf)))
          = mset errs
            + mset (concat (map (\<lambda>x. handlePanic (fieldStatus e ctx path x) (fieldErrs e ctx path x)) fs))
      \<and> handlePanic (fieldStatus e ctx path g) (fieldErrs e ctx path g) = [panicError p]"
  proof (intro impI, elim conjE)
    assume col: "collectFieldsToResolve e ss rv ([], Map.empty) = Inr (fs, m)"
      and a: "\<not> serially" "HasAsyncSel e ss"
      and ty: "Type (SF_Field (field g)) = NonNull t"
      and res: "resolveField e (fieldTraceCtx e ctx g) g (PathSegment path (PathName (Alias (field g))))
          = Inr NilPtr"
    have x: "execSelections e ctx ss path rv serially errs buf =
       (Normal,
        errs @ concat (map (\<lambda>f. handlePanic (fieldStatus e ctx path f) (fieldErrs e ctx path f)) fs),
        buf @ ''{'' @ commaJoin (entries e ctx path fs) @ ''}'')"
      using execSelections_async [OF col] a by simp
    show "fst (execSelections e ctx ss path rv serially errs buf) = Normal
      \<and> snd (snd (execSelections e ctx ss path rv serially errs buf))
          = buf @ ''{'' @ commaJoin (entries e ctx path fs) @ ''}''
      \<and> fieldBytes e ctx path g = []
      \<and> mset (fst (snd (execSelections e ctx ss path rv serially errs buf)))
          = mset errs
            + mset (concat (map (\<lambda>x. handlePanic (fieldStatus e ctx path x) (fieldErrs e ctx path x)) fs))
      \<and> handlePanic (fieldStatus e ctx path g) (fieldErrs e ctx path g) = [panicError p]"
      using runField_nil_pointer [OF kind ty res] p by (simp add: x handlePanic_def)
  qed
  have h4: "ApplyOperation e s op = ApplyReturns root added
      \<and> collectFieldsToResolve e root (Resolver s) ([], Map.empty) = Inr (pre @ h # post, mr)
      \<and> \<not> (OpType op \<noteq> Mutation \<and> HasAsyncSel e root)
      \<and> (\<forall>x \<in> set pre. fieldStatus e ctx NoSegment x = Normal)
      \<and> Type (SF_Field (field h)) = NonNull t
      \<and> resolveField e (fieldTraceCtx e ctx h) h (PathSegment NoSegment (PathName (Alias (field h))))
          = Inr NilPtr
      \<and> Err ctx = None \<longrightarrow>
      fst (Execute e r ctx s op)
        = ''{'' @ commaJoin (entries e ctx NoSegment pre @ [objectEntry h []])
      \<and> mset (snd (Execute e r ctx s op))
          = mset (Errs r @ added @ concat (map (fieldErrs e ctx NoSegment) pre)) + {#panicError p#}
      \<and> last (snd (Execute e r ctx s op)) = panicError p"
  proof (intro impI, elim conjE)
    assume ap: "ApplyOperation e s op = ApplyReturns root added"
      and col: "collectFieldsToResolve e root (Resolver s) ([], Map.empty) = Inr (pre @ h # post, mr)"
      and ser: "\<not> (OpType op \<noteq> Mutation \<and> HasAsyncSel e root)"
      and pre: "\<forall>x \<in> set pre. fieldStatus e ctx NoSegment x = Normal"
      and ty: "Type (SF_Field (field h)) = NonNull t"
      and res: "resolveField e (fieldTraceCtx e ctx h) h (PathSegment NoSegment (PathName (Alias (field h))))
          = Inr NilPtr"
      and unc: "Err ctx = None"
    note run = runField_nil_pointer [OF kind ty res]
    have ser1: "\<not> (\<not> (OpType op = Mutation) \<and> HasAsyncSel e root)"
      using ser by simp
    have st: "fieldStatus e ctx NoSegment h = Panic p"
      using run(1) p by simp
    have x: "Execute e r ctx s op =
       (''{'' @ commaJoin (entries e ctx NoSegment (pre @ [h])),
        handlePanic (Panic p)
          ((Errs r @ added) @ concat (map (fieldErrs e ctx NoSegment) pre) @ fieldErrs e ctx NoSegment h))"
      using Execute_uncancelled [OF ap unc execSelections_sync_panic [OF col ser1 pre st]]
      by simp
    show "fst (Execute e r ctx s op)
        = ''{'' @ commaJoin (entries e ctx NoSegment pre @ [objectEntry h []])
      \<and> mset (snd (Execute e r ctx s op))
          = mset (Errs r @ added @ concat (map (fieldErrs e ctx NoSegment) pre)) + {#panicError p#}
      \<and> last (snd (Execute e r ctx s op)) = panicError p"
      by (simp add: x run(2,3) handlePanic_def entries_def)
  qed
  have h5: "execSelectionSet e ctx ss (NonNull (ListOf ofType)) path NilSlice errs buf
       = (Normal, errs, buf @ ''[]'')"
    by (rule execSelectionSet_nil_slice)
  have h6: "IsValid v \<longrightarrow>
      execSelectionSet e ctx ss (NonNull (Scalar n)) path v errs buf
        = (case json_Marshal e v of
             None \<Rightarrow> (Panic (CouldNotMarshal v), errs, buf)
           | Some data \<Rightarrow> (Normal, errs, buf @ data))"
    by (simp add: execSelectionSet_scalar)
  have h7: "execSelectionSet e ctx ss (NonNull (Enum n)) path v errs buf
       = (Normal, errs, buf @ ''\"'' @ String_of e v @ ''\"'')"
    by (rule execSelectionSet_enum)
  show ?thesis
    by (intro conjI) (rule h1 h2 h3 h4 h5 h6 h7)+
qed

text \<open>
  A non-null object field \<open>hero\<close> whose resolver returns a nil pointer: alone, next to
  \<open>a\<close> in a concurrent selection set, and between \<open>a\<close> and \<open>b\<close> in the serial query
  \<open>{ a hero { a } b }\<close>; a nil pointer and a nil slice under \<open>[Int!]!\<close>, a number under
  \<open>Int!\<close> and a string under a non-null enum.
\<close>

theorem non_null_nil_pointer_witness:
  "isObjectInterfaceUnion (Object ''Human'')
   \<and> execSelectionSet (demoEnv [demoA, demoHero False, demoB]) background
       [demoHero True, demoAsyncA] (NonNull (Object ''Human'')) NoSegment NilPtr [] []
     = (Panic (GotNilForNonNull (Object ''Human'')), [], [])
   \<and> execFieldSelection (demoEnv [demoA, demoHero False, demoB]) background
       \<lparr>field = demoField ''hero'' (NonNull (Object ''Human'')) 2 False False, sels = [demoA],
        resolver = Other 1, out = []\<rparr>
       NoSegment False [] []
     = (Panic (GotNilForNonNull (Object ''Human'')), [], [])
   \<and> execSelections (demoEnv [demoA, demoHero False, demoB]) background
       [demoHero True, demoAsyncA] NoSegment (Other 1) False [] []
     = (Normal,
        [\<lparr>Message = ''internal server error'', Path = [], OriginalError = None,
          PanicValue = Some (GotNilForNonNull (Object ''Human''))\<rparr>],
        ''{\"hero\":,\"a\":5}'')
   \<and> Execute (demoEnv [demoA, demoHero False, demoB]) \<lparr>Errs = []\<rparr> background
       \<lparr>Resolver = Other 1\<rparr> \<lparr>OpType = Query\<rparr>
     = (''{\"a\":5,\"hero\":'',
        [\<lparr>Message = ''internal server error'', Path = [], OriginalError = None,
          PanicValue = Some (GotNilForNonNull (Object ''Human''))\<rparr>])
   \<and> execSelectionSet (demoEnv []) background [] (NonNull (ListOf (NonNull (Scalar ''Int''))))
       NoSegment NilPtr [] []
     = (Panic ReflectPanic, [], [])
   \<and> execSelectionSet (demoEnv []) background [] (NonNull (ListOf (NonNull (Scalar ''Int''))))
       NoSegment NilSlice [] []
     = (Normal, [], ''[]'')
   \<and> execSelectionSet (demoEnv []) background [] (NonNull (Scalar ''Int'')) NoSegment (Other 5) [] []
     = (Normal, [], ''5'')
   \<and> execSelectionSet (demoEnv []) background [] (NonNull (Enum ''Episode'')) NoSegment
       (Str ''JEDI'') [] []
     = (Normal, [], ''\"JEDI\"'')"
  using non_null_nil_pointer_panics_into_one_error
    [where t = "Object ''Human''" and ofType = "Scalar ''Int''"
       and p = "GotNilForNonNull (Object ''Human'')"
       and e = "demoEnv [demoA, demoHero False, demoB]" and ctx = background
       and ss = "[demoHero True, demoAsyncA]" and path = NoSegment and errs = "[]" and buf = "[]"
       and applyLimiter = False and serially = False and rv = "Other 1"
       and f = "\<lparr>field = demoField ''hero'' (NonNull (Object ''Human'')) 2 False False,
                 sels = [demoA], resolver = Other 1, out = []\<rparr>"
       and fs = "[\<lparr>field = demoField ''hero'' (NonNull (Object ''Human'')) 2 False True,
                   sels = [demoA], resolver = Other 1, out = []\<rparr>,
                  \<lparr>field = demoField ''a'' (NonNull (Scalar ''Int'')) 0 False True, sels = [],
                   resolver = Other 1, out = []\<rparr>]"
       and m = "[''hero'' \<mapsto> 0, ''a'' \<mapsto> 1]"
       and g = "\<lparr>field = demoField ''hero'' (NonNull (Object ''Human'')) 2 False True,
                 sels = [demoA], resolver = Other 1, out = []\<rparr>"
       and s = "\<lparr>Resolver = Other 1\<rparr>" and op = "\<lparr>OpType = Query\<rparr>"
       and r = "\<lparr>Errs = []\<rparr>" and root = "[demoA, demoHero False, demoB]" and added = "[]"
       and pre = "[\<lparr>field = demoField ''a'' (NonNull (Scalar ''Int'')) 0 False False, sels = [],
                    resolver = Other 1, out = []\<rparr>]"
       and h = "\<lparr>field = demoField ''hero'' (NonNull (Object ''Human'')) 2 False False,
                 sels = [demoA], resolver = Other 1, out = []\<rparr>"
       and post = "[\<lparr>field = demoField ''b'' (Scalar ''String'') 1 True False, sels = [],
                     resolver = Other 1, out = []\<rparr>]"
       and mr = "[''a'' \<mapsto> 0, ''hero'' \<mapsto> 1, ''b'' \<mapsto> Suc (Suc 0)]"
       and v = "Other 5" and n = "''Int''"]
    non_null_nil_pointer_panics_into_one_error
    [where t = "ListOf (NonNull (Scalar ''Int''))" and ofType = "NonNull (Scalar ''Int'')"
       and p = ReflectPanic and e = "demoEnv []" and ctx = background and ss = "[]"
       and path = NoSegment and errs = "[]" and buf = "[]" and v = "Str ''JEDI''"
       and n = "''Episode''"]
  by (simp add: demo_defs run_defs)

subsection \<open>The merge\<close>

lemma collect_leaves:
  "collectFieldsToResolve e ss rv c =
     (case leaves e ss rv of Inl p \<Rightarrow> Inl p | Inr ls \<Rightarrow> Inr (foldl (addLeaf e) c ls))"
proof (induction e ss rv c rule: collectFieldsToResolve.induct)
  case (1 e rv fs fieldByAlias)
  then show ?case by simp
next
  case (2 e sel ss rest rv fs fieldByAlias)
  then show ?case
    by (cases "fieldByAlias (Alias sel)"; cases "leaves e rest rv") simp_all
next
  case (3 e name al tas rest rv fs fieldByAlias)
  then show ?case
    by (cases "typeOf e name tas rv"; cases "leaves e rest rv") (simp_all add: typenameEntry_def)
next
  case (4 e idx ss rest rv fs fieldByAlias)
  show ?case
  proof (cases "Assert e rv idx")
    case (AssertPanics p)
    then show ?thesis by simp
  next
    case (AssertReturns v b)
    show ?thesis
    proof (cases b)
      case False
      with AssertReturns 4(1) [OF AssertReturns] show ?thesis by simp
    next
      case True
      note nb = True
      show ?thesis
      proof (cases "leaves e ss v")
        case (Inl p)
        with AssertReturns nb 4(2) [OF AssertReturns] show ?thesis by simp
      next
        case (Inr ls1)
        with AssertReturns nb 4(2) [OF AssertReturns]
        have c1: "collectFieldsToResolve e ss v (fs, fieldByAlias)
            = Inr (foldl (addLeaf e) (fs, fieldByAlias) ls1)"
          by simp
        with AssertReturns nb Inr 4(3) [OF AssertReturns _ c1] show ?thesis
          by (cases "leaves e rest rv") simp_all
      qed
    qed
  qed
qed

lemma merge_snoc_typename:
  "mergeSpec e (ls @ [TypenameLeaf al n rv]) = mergeSpec e ls @ [typenameEntry e al n rv]
   \<and> aliasIndex (ls @ [TypenameLeaf al n rv]) a = aliasIndex ls a"
  by (induction e ls arbitrary: a rule: mergeSpec.induct) simp_all

lemma aliasIndex_bound: "aliasIndex ls a = Some i \<Longrightarrow> i < length (mergeSpec e ls)"
  by (induction e ls arbitrary: i rule: mergeSpec.induct) (auto split: if_splits)

lemma merge_snoc_new:
  "aliasIndex ls (Alias sel) = None \<Longrightarrow>
   mergeSpec e (ls @ [FieldLeaf sel ss rv])
     = mergeSpec e ls @ [\<lparr>field = sel, sels = ss, resolver = rv, out = []\<rparr>]
   \<and> aliasIndex (ls @ [FieldLeaf sel ss rv])
     = (aliasIndex ls)(Alias sel \<mapsto> length (mergeSpec e ls))"
proof (induction e ls rule: mergeSpec.induct)
  case (1 e)
  then show ?case by auto
next
  case (2 e al n v ls)
  then show ?case by (auto simp add: fun_eq_iff)
next
  case (3 e h hs v ls)
  from "3.prems" have ne: "Alias h \<noteq> Alias sel"
    by (auto split: if_splits)
  with "3.prems" have "aliasIndex (filter (\<lambda>l. \<not> sameAlias (Alias h) l) ls) (Alias sel) = None"
    by simp
  from "3.IH" [OF this] ne show ?case
    by (auto simp add: fun_eq_iff)
qed

lemma merge_snoc_seen:
  "aliasIndex ls (Alias sel) = Some i \<Longrightarrow>
   mergeSpec e (ls @ [FieldLeaf sel ss rv])
     = (mergeSpec e ls)[i := (mergeSpec e ls ! i)\<lparr>sels := sels (mergeSpec e ls ! i) @ ss\<rparr>]
   \<and> aliasIndex (ls @ [FieldLeaf sel ss rv]) = aliasIndex ls"
proof (induction e ls arbitrary: i rule: mergeSpec.induct)
  case (1 e)
  then show ?case by simp
next
  case (2 e al n v ls)
  then show ?case by (auto simp add: fun_eq_iff)
next
  case (3 e h hs v ls)
  show ?case
  proof (cases "Alias h = Alias sel")
    case True
    with "3.prems" show ?thesis by (auto simp add: fun_eq_iff)
  next
    case False
    with "3.prems" obtain j where
      j: "aliasIndex (filter (\<lambda>l. \<not> sameAlias (Alias h) l) ls) (Alias sel) = Some j"
      and i: "i = Suc j"
      by auto
    from "3.IH" [OF j] False i show ?thesis
      by (auto simp add: fun_eq_iff)
  qed
qed

lemma fold_addLeaf:
  "foldl (addLeaf e) ([], Map.empty) ls = (mergeSpec e ls, aliasIndex ls)"
proof (induction ls rule: rev_induct)
  case Nil
  show ?case by (simp add: fun_eq_iff)
next
  case (snoc x ls)
  show ?case
  proof (cases x)
    case (TypenameLeaf al n rv)
    with snoc merge_snoc_typename [of e ls al n rv] show ?thesis
      by (simp add: fun_eq_iff)
  next
    case (FieldLeaf sel ss rv)
    show ?thesis
    proof (cases "aliasIndex ls (Alias sel)")
      case None
      with snoc FieldLeaf merge_snoc_new [OF None, of e ss rv] show ?thesis
        by (simp add: fun_upd_def)
    next
      case (Some i)
      with snoc FieldLeaf merge_snoc_seen [OF Some, of e ss rv] show ?thesis by simp
    qed
  qed
qed

text \<open>
  C3. The merge step of a selection list returns, from the empty list and map, the
  first-seen grouping of the selections it visits: the fields are in first-seen alias
  order, only the first field selection of an alias creates an entry (and binds the
  resolver and the field metadata), and every occurrence of the alias, the first and
  the later ones, appends its nested selections to that entry. It panics exactly when
  the traversal does, with the same value.
\<close>

theorem merge_is_first_seen_grouping:
  "map_sum id fst (collectFieldsToResolve e ss rv ([], Map.empty))
     = map_sum id (mergeSpec e) (leaves e ss rv)"
  by (cases "leaves e ss rv") (simp_all add: collect_leaves fold_addLeaf)

text \<open>
  The field \<open>x\<close> selected twice, the second time under a type assertion that holds, with
  different nested selections, and the field \<open>b\<close> between them: one entry \<open>x\<close> with
  both nested selections, then \<open>b\<close>.
\<close>

theorem merge_witness:
  "map_sum id fst
     (collectFieldsToResolve (demoEnv []) [demoX [demoA], demoB, TypeAssertion 1 [demoX [demoB]]]
        (Other 1) ([], Map.empty))
   = Inr [\<lparr>field = demoField ''x'' (Object ''Human'') 3 False False, sels = [demoA, demoB],
           resolver = Other 1, out = []\<rparr>,
          \<lparr>field = demoField ''b'' (Scalar ''String'') 1 True False, sels = [],
           resolver = Other 1, out = []\<rparr>]"
  using merge_is_first_seen_grouping
    [where e = "demoEnv []" and ss = "[demoX [demoA], demoB, TypeAssertion 1 [demoX [demoB]]]"
       and rv = "Other 1"]
  by (simp add: demoEnv_def demoX_def demoA_def demoB_def demoField_def)

subsection \<open>Type assertions and type names\<close>

lemma collect_append:
  "collectFieldsToResolve e (xs @ ys) rv c =
     (case collectFieldsToResolve e xs rv c of
        Inl p \<Rightarrow> Inl p
      | Inr c1 \<Rightarrow> collectFieldsToResolve e ys rv c1)"
proof (induction e xs rv c rule: collectFieldsToResolve.induct)
  case (1 e rv fs fieldByAlias)
  then show ?case by simp
next
  case (2 e sel ss rest rv fs fieldByAlias)
  then show ?case by (cases "fieldByAlias (Alias sel)") simp_all
next
  case (3 e name al tas rest rv fs fieldByAlias)
  then show ?case by (cases "typeOf e name tas rv") simp_all
next
  case (4 e idx ss rest rv fs fieldByAlias)
  show ?case
  proof (cases "Assert e rv idx")
    case (AssertPanics p)
    then show ?thesis by simp
  next
    case (AssertReturns v b)
    show ?thesis
    proof (cases b)
      case True
      with AssertReturns 4(3) [OF AssertReturns] show ?thesis
        by (cases "collectFieldsToResolve e ss v (fs, fieldByAlias)") simp_all
    next
      case False
      with AssertReturns 4(1) [OF AssertReturns] show ?thesis by simp
    qed
  qed
qed

text \<open>
  C8. A type assertion anywhere in a selection list: when its predicate returns
  false on the current resolver, the merge gives what it gives without the assertion,
  so its subtree adds no field (and the merge has no access to the errors); when it
  returns true, the nested selections are merged, at that place, into the same list
  and map, with the resolver that the predicate returned.
\<close>

theorem type_assertion_false_drops_true_merges_narrowed:
  "(Assert e rv idx = AssertReturns v False \<longrightarrow>
      collectFieldsToResolve e (pre @ TypeAssertion idx ss # post) rv c =
      collectFieldsToResolve e (pre @ post) rv c)
   \<and> (Assert e rv idx = AssertReturns v True \<longrightarrow>
      collectFieldsToResolve e (pre @ TypeAssertion idx ss # post) rv c =
      (case collectFieldsToResolve e pre rv c of
         Inl p \<Rightarrow> Inl p
       | Inr c1 \<Rightarrow>
           (case collectFieldsToResolve e ss v c1 of
              Inl p \<Rightarrow> Inl p
            | Inr c2 \<Rightarrow> collectFieldsToResolve e post rv c2)))"
proof -
  have step: "collectFieldsToResolve e (TypeAssertion idx ss # post) rv c1 =
      (case Assert e rv idx of
         AssertPanics p \<Rightarrow> Inl p
       | AssertReturns v b \<Rightarrow>
           if \<not> b then collectFieldsToResolve e post rv c1
           else (case collectFieldsToResolve e ss v c1 of
                   Inl p \<Rightarrow> Inl p
                 | Inr c2 \<Rightarrow> collectFieldsToResolve e post rv c2))" for c1
    by (cases c1) (auto split: assert_result.splits)
  show ?thesis
    by (simp add: collect_append [of e pre] step split: sum.splits)
qed

text \<open>
  The selections \<open>a\<close> and \<open>... on T { b }\<close>: dropped under narrowing method 0, merged
  under narrowing method 1.
\<close>

theorem type_assertion_witness:
  "collectFieldsToResolve (demoEnv []) [demoA, TypeAssertion 0 [demoB]] (Other 1) ([], Map.empty)
     = collectFieldsToResolve (demoEnv []) [demoA] (Other 1) ([], Map.empty)
   \<and> map_sum id fst
       (collectFieldsToResolve (demoEnv []) [demoA, TypeAssertion 1 [demoB]] (Other 1) ([], Map.empty))
     = Inr [\<lparr>field = demoField ''a'' (NonNull (Scalar ''Int'')) 0 False False, sels = [],
             resolver = Other 1, out = []\<rparr>,
            \<lparr>field = demoField ''b'' (Scalar ''String'') 1 True False, sels = [],
             resolver = Other 1, out = []\<rparr>]"
  using type_assertion_false_drops_true_merges_narrowed
    [where e = "demoEnv []" and rv = "Other 1" and idx = 0 and v = "Other 1" and pre = "[demoA]"
       and ss = "[demoB]" and post = "[]" and c = "([], Map.empty)"]
    type_assertion_false_drops_true_merges_narrowed
    [where e = "demoEnv []" and rv = "Other 1" and idx = 1 and v = "Other 1" and pre = "[demoA]"
       and ss = "[demoB]" and post = "[]" and c = "([], Map.empty)"]
  by (simp add: demoEnv_def demoA_def demoB_def demoField_def)

lemma typeOf_loop_none:
  "\<forall>(n, idx) \<in> set tas. \<exists>v. Assert e rv idx = AssertReturns v False \<Longrightarrow>
   typeOf_loop e tas rv = Inr ''''"
  by (induction tas) auto

text \<open>
  C9. A typename selection on a type with type assertions none of whose predicates
  succeeds: \<open>typeOf\<close> is the empty string, and the field is written with that string
  marshalled as its value (the typename meta field being a non-null scalar).
\<close>

theorem typename_without_matching_variant_is_empty_string:
  assumes "tas \<noteq> []"
    and "\<forall>(n, idx) \<in> set tas. \<exists>v. Assert e rv idx = AssertReturns v False"
    and "Type (MetaFieldTypename e) = NonNull (Scalar sn)"
    and "json_Marshal e (Str '''') = Some data"
  shows "typeOf e name tas rv = Inr ''''
         \<and> execSelections e ctx [TypenameField name al tas] path rv serially errs buf
           = (Normal, errs, buf @ ''{\"'' @ al @ ''\":'' @ data @ ''}'')"
proof -
  have t: "typeOf e name tas rv = Inr ''''"
    using assms(1) typeOf_loop_none [OF assms(2)] by (simp add: typeOf_def)
  have f: "execFieldSelection e ctx
      \<lparr>field = \<lparr>SF_Field = MetaFieldTypename e, Alias = al, Args = 0, PackedArgs = Invalid,
                 Async = False, FixedResult = Str ''''\<rparr>,
       sels = [], resolver = rv, out = []\<rparr> p lim es b = (Normal, es, b @ data)" for p lim es b
    using assms(3,4)
    by (simp add: execFieldSelection.simps resolveField_def execSelectionSet.simps)
  show ?thesis
    by (cases "\<not> serially \<and> HasAsyncSel e [TypenameField name al tas]")
      (auto simp add: t f execSelections.simps writeKey_def handlePanic_def Let_def)
qed

text \<open>\<open>__typename\<close> on an interface with two variants, neither of which matches.\<close>

theorem typename_without_matching_variant_witness:
  "typeOf (demoEnv []) ''Character'' [(''Human'', 0), (''Droid'', 2)] (Other 1) = Inr ''''
   \<and> execSelections (demoEnv []) background
       [TypenameField ''Character'' ''__typename'' [(''Human'', 0), (''Droid'', 2)]]
       NoSegment (Other 1) False [] []
     = (Normal, [], ''{\"__typename\":\"\"}'')"
  using typename_without_matching_variant_is_empty_string
    [where tas = "[(''Human'', 0), (''Droid'', 2)]" and e = "demoEnv []" and rv = "Other 1"
       and sn = "''String''" and data = "''\"\"''" and name = "''Character''"
       and ctx = background and al = "''__typename''" and path = NoSegment and serially = False
       and errs = "[]" and buf = "[]"]
  by (simp add: demoEnv_def demoTypename_def)

subsection \<open>Objects\<close>

text \<open>
  C10, as the claim states it, fails when a panic leaves the selection set: the query
  \<open>{ hero { a } }\<close>, whose \<open>hero\<close> is of a non-null object type and resolves to a nil
  pointer, is answered with the body \<open>{"hero":\<close>, without the closing brace.
\<close>

theorem serial_panic_leaves_object_open:
  "Execute (demoEnv [demoHero False]) \<lparr>Errs = []\<rparr> background \<lparr>Resolver = Other 1\<rparr> \<lparr>OpType = Query\<rparr>
   = (''{\"hero\":'',
      [\<lparr>Message = ''internal server error'', Path = [], OriginalError = None,
        PanicValue = Some (GotNilForNonNull (Object ''Human''))\<rparr>])"
  by (simp add: demo_defs run_defs)

text \<open>
  C10, amended. For a selection set whose merge returns the fields \<open>fs\<close>:
  \<open>execSelections\<close> returns normally exactly when the set is executed concurrently or
  no field's execution panics; when it returns normally it has written one opening
  brace, the entries of the merged fields in their order with commas between them,
  and one closing brace; with no merged field that is \<open>{}\<close>; and when, in a serial
  set, a field's execution panics, what is written ends with that field's bytes and has
  no closing brace.
\<close>

theorem object_is_braced_unless_a_panic_leaves_it:
  assumes "collectFieldsToResolve e ss rv ([], Map.empty) = Inr (fs, m)"
  shows "(fst (execSelections e ctx ss path rv serially errs buf) = Normal \<longleftrightarrow>
            (\<not> serially \<and> HasAsyncSel e ss) \<or> (\<forall>f \<in> set fs. fieldStatus e ctx path f = Normal))
       \<and> (fst (execSelections e ctx ss path rv serially errs buf) = Normal \<longrightarrow>
            snd (snd (execSelections e ctx ss path rv serially errs buf))
              = buf @ ''{'' @ commaJoin (entries e ctx path fs) @ ''}'')
       \<and> (fs = [] \<longrightarrow>
            execSelections e ctx ss path rv serially errs buf = (Normal, errs, buf @ ''{}''))
       \<and> (\<forall>pre f post p.
            fs = pre @ f # post \<and> \<not> (\<not> serially \<and> HasAsyncSel e ss)
            \<and> (\<forall>g \<in> set pre. fieldStatus e ctx path g = Normal)
            \<and> fieldStatus e ctx path f = Panic p \<longrightarrow>
            snd (snd (execSelections e ctx ss path rv serially errs buf))
              = buf @ ''{'' @ commaJoin (entries e ctx path (pre @ [f])))"
proof (intro conjI)
  show st: "fst (execSelections e ctx ss path rv serially errs buf) = Normal \<longleftrightarrow>
      (\<not> serially \<and> HasAsyncSel e ss) \<or> (\<forall>f \<in> set fs. fieldStatus e ctx path f = Normal)"
    by (rule execSelections_status [OF assms])
  show "fst (execSelections e ctx ss path rv serially errs buf) = Normal \<longrightarrow>
      snd (snd (execSelections e ctx ss path rv serially errs buf))
        = buf @ ''{'' @ commaJoin (entries e ctx path fs) @ ''}''"
  proof
    assume n: "fst (execSelections e ctx ss path rv serially errs buf) = Normal"
    show "snd (snd (execSelections e ctx ss path rv serially errs buf))
        = buf @ ''{'' @ commaJoin (entries e ctx path fs) @ ''}''"
    proof (cases "\<not> serially \<and> HasAsyncSel e ss")
      case True
      then show ?thesis using execSelections_async [OF assms True] by simp
    next
      case False
      with n st have "\<forall>f \<in> set fs. fieldStatus e ctx path f = Normal" by simp
      from execSelections_sync [OF assms False this] show ?thesis by simp
    qed
  qed
  show "fs = [] \<longrightarrow>
      execSelections e ctx ss path rv serially errs buf = (Normal, errs, buf @ ''{}'')"
  proof
    assume e: "fs = []"
    show "execSelections e ctx ss path rv serially errs buf = (Normal, errs, buf @ ''{}'')"
    proof (cases "\<not> serially \<and> HasAsyncSel e ss")
      case True
      then show ?thesis using execSelections_async [OF assms True] e by (simp add: entries_def)
    next
      case False
      then show ?thesis using execSelections_sync [OF assms False] e by (simp add: entries_def)
    qed
  qed
  show "\<forall>pre f post p.
      fs = pre @ f # post \<and> \<not> (\<not> serially \<and> HasAsyncSel e ss)
      \<and> (\<forall>g \<in> set pre. fieldStatus e ctx path g = Normal)
      \<and> fieldStatus e ctx path f = Panic p \<longrightarrow>
      snd (snd (execSelections e ctx ss path rv serially errs buf))
        = buf @ ''{'' @ commaJoin (entries e ctx path (pre @ [f]))"
  proof (intro allI impI, elim conjE)
    fix pre f post p
    assume fs: "fs = pre @ f # post" and s: "\<not> (\<not> serially \<and> HasAsyncSel e ss)"
      and pre: "\<forall>g \<in> set pre. fieldStatus e ctx path g = Normal"
      and f: "fieldStatus e ctx path f = Panic p"
    from assms fs have c: "collectFieldsToResolve e ss rv ([], Map.empty) = Inr (pre @ f # post, m)"
      by simp
    from execSelections_sync_panic [OF c s pre f]
    show "snd (snd (execSelections e ctx ss path rv serially errs buf))
        = buf @ ''{'' @ commaJoin (entries e ctx path (pre @ [f]))"
      by simp
  qed
qed

text \<open>The two fields of the scenario, and a selection set whose only type assertion fails.\<close>

theorem object_is_braced_witness:
  "execSelections (demoEnv []) background [demoA, demoB] NoSegment (Other 1) False [] []
     = (Normal,
        [\<lparr>Message = ''boom'', Path = [PathName ''b''], OriginalError = Some (GoError 1 ''boom''),
          PanicValue = None\<rparr>],
        ''{\"a\":5,\"b\":null}'')
   \<and> snd (snd (execSelections (demoEnv []) background [demoA, demoB] NoSegment (Other 1) False [] []))
     = ''{'' @ commaJoin [''\"a\":5'', ''\"b\":null''] @ ''}''
   \<and> execSelections (demoEnv []) background [TypeAssertion 0 [demoA]] NoSegment (Other 1) True [] []
     = (Normal, [], ''{}'')"
  using object_is_braced_unless_a_panic_leaves_it
    [where e = "demoEnv []" and ss = "[demoA, demoB]" and rv = "Other 1"
       and fs = "[\<lparr>field = demoField ''a'' (NonNull (Scalar ''Int'')) 0 False False, sels = [],
                   resolver = Other 1, out = []\<rparr>,
                  \<lparr>field = demoField ''b'' (Scalar ''String'') 1 True False, sels = [],
                   resolver = Other 1, out = []\<rparr>]"
       and m = "[''a'' \<mapsto> 0, ''b'' \<mapsto> 1]" and ctx = background and path = NoSegment
       and serially = False and errs = "[]" and buf = "[]"]
    object_is_braced_unless_a_panic_leaves_it
    [where e = "demoEnv []" and ss = "[TypeAssertion 0 [demoA]]" and rv = "Other 1"
       and fs = "[]" and m = Map.empty and ctx = background and path = NoSegment
       and serially = True and errs = "[]" and buf = "[]"]
  by (simp add: demo_defs run_defs)

subsection \<open>Panics\<close>




subsection \<open>Lists\<close>

text \<open>
  C4, as the claim states it, fails when the serialization of an element panics: for
  a list of two non-null objects whose first element is a nil pointer, the concurrent
  execution writes \<open>[,{"a":5}]\<close>, with nothing for the first element, and the strictly
  sequential one stops after \<open>[\<close>.
\<close>

theorem concurrent_list_differs_from_sequential_after_panic:
  "snd (snd (execSelectionSet (demoEnv []) background [demoAsyncA]
       (NonNull (ListOf (NonNull (Object ''Human'')))) NoSegment (Slice [NilPtr, Ptr (Other 1)])
       [] []))
     = ''[,{\"a\":5}]''
   \<and> snd (snd (execSelectionSet (sequential (demoEnv [])) background [demoAsyncA]
       (NonNull (ListOf (NonNull (Object ''Human'')))) NoSegment (Slice [NilPtr, Ptr (Other 1)])
       [] []))
     = ''[''"
  by (simp add: demo_defs run_defs sequential_def)

text \<open>
  C4, amended. For a list-typed value whose strictly sequential serialization does not
  panic: the output is one bracket pair around exactly one entry per element, in the
  order of the indices, each entry being the bytes of that element serialized on its
  own, with commas between them; and the execution under any \<open>HasAsyncSel\<close>, so also the
  one that runs the elements and the fields below them concurrently, returns normally
  with the same bytes.
\<close>

theorem list_entries_in_order_and_concurrent_equals_sequential:
  assumes "listElems ty rv = Some (ofType, vs)"
    and "fst (execSelectionSet (sequential e) ctx ss ty path rv errs buf) = Normal"
  shows "snd (snd (execSelectionSet (sequential e) ctx ss ty path rv errs buf))
           = buf @ ''['' @ commaJoin (map (elemBytes (sequential e) ctx ss ofType path)
                                         (enumerate 0 vs)) @ '']''
       \<and> length (map (elemBytes (sequential e) ctx ss ofType path) (enumerate 0 vs)) = length vs
       \<and> fst (execSelectionSet e ctx ss ty path rv errs buf) = Normal
       \<and> snd (snd (execSelectionSet e ctx ss ty path rv errs buf))
           = snd (snd (execSelectionSet (sequential e) ctx ss ty path rv errs buf))"
proof -
  let ?s = "sequential e"
  obtain st E B where s0: "execSelectionSet ?s ctx ss ty path rv [] [] = (st, E, B)"
    by (cases "execSelectionSet ?s ctx ss ty path rv [] []")
  note s1 = appends_at [OF exec_appends(5) s0, of errs buf]
  with assms(2) have st: "st = Normal" by simp
  have "agrees (execSelectionSet ?s ctx ss ty path rv [] []) (execSelectionSet e ctx ss ty path rv [] [])"
    by (rule sequential_agrees(5))
  with s0 st have e0: "execSelectionSet e ctx ss ty path rv [] [] = (Normal, E, B)"
    by (simp add: agrees_def)
  note e1 = appends_at [OF exec_appends(5) e0, of errs buf]
  obtain st2 E2 B2 where l0: "loopList ?s ctx ss ofType path 0 vs errs (buf @ ''['') = (st2, E2, B2)"
    by (cases "loopList ?s ctx ss ofType path 0 vs errs (buf @ ''['')")
  with assms(2) execSelectionSet_list [OF assms(1), of ?s ctx ss path errs buf]
  have "st2 = Normal"
    by (cases st2) simp_all
  with l0 loopList_status [of ?s ctx ss ofType path 0 vs errs "buf @ ''[''"]
  have allN: "\<forall>kv \<in> set (enumerate 0 vs). elemStatus ?s ctx ss ofType path kv = Normal"
    by simp
  have "snd (snd (execSelectionSet ?s ctx ss ty path rv errs buf))
      = buf @ ''['' @ commaJoin (map (elemBytes ?s ctx ss ofType path) (enumerate 0 vs)) @ '']''"
    using execSelectionSet_list [OF assms(1), of ?s ctx ss path errs buf]
      loopList_normal [OF allN, of errs "buf @ ''[''"]
    by (simp add: joined_0)
  then show ?thesis
    using s1 e1 st by simp
qed

text \<open>A nullable list of three objects under a selection that is asynchronous.\<close>

theorem list_entries_witness:
  "listElems (ListOf (NonNull (Object ''Human''))) (Ptr (Slice [Ptr (Other 1), Ptr (Other 2), Ptr (Other 3)]))
     = Some (NonNull (Object ''Human''), [Ptr (Other 1), Ptr (Other 2), Ptr (Other 3)])
   \<and> execSelectionSet (sequential (demoEnv [])) background [demoAsyncA]
       (ListOf (NonNull (Object ''Human''))) NoSegment
       (Ptr (Slice [Ptr (Other 1), Ptr (Other 2), Ptr (Other 3)])) [] []
     = (Normal, [], ''[{\"a\":5},{\"a\":5},{\"a\":5}]'')
   \<and> demoHasAsyncSel [demoAsyncA]
   \<and> snd (snd (execSelectionSet (demoEnv []) background [demoAsyncA]
       (ListOf (NonNull (Object ''Human''))) NoSegment
       (Ptr (Slice [Ptr (Other 1), Ptr (Other 2), Ptr (Other 3)])) [] []))
     = ''[{\"a\":5},{\"a\":5},{\"a\":5}]''"
  using list_entries_in_order_and_concurrent_equals_sequential
    [where ty = "ListOf (NonNull (Object ''Human''))"
       and rv = "Ptr (Slice [Ptr (Other 1), Ptr (Other 2), Ptr (Other 3)])"
       and ofType = "NonNull (Object ''Human'')"
       and vs = "[Ptr (Other 1), Ptr (Other 2), Ptr (Other 3)]"
       and e = "demoEnv []" and ctx = background and ss = "[demoAsyncA]" and path = NoSegment
       and errs = "[]" and buf = "[]"]
  by (simp add: demo_defs run_defs sequential_def upt_rec)

end
